theory Spec2Isabelle
  imports Complex_Main "HOL-Library.AList"
begin

section \<open>Data model\<close>

text \<open>
  The two transformers work on pandas data frames. A frame is modelled as the ordered
  list of its named columns (\<open>X[var]\<close> is the first column of that name; the columns
  of a frame have pairwise distinct names and the same number of rows); a cell is a
  string, a number or the missing marker (\<open>NaN\<close> / \<open>None\<close>). Floating-point numbers are modelled as real numbers: the
  arithmetic below is the exact one, rounding is not modelled. Python exceptions are
  values of the type \<open>error\<close>, named after the exception classes the code raises
  (\<open>ValueError\<close> is the class of every configuration and data-validation error).
\<close>

datatype error =
    ValueError | TypeError | KeyError | ZeroDivisionError

datatype pyval = PNone | PInt int | PFloat real | PStr string

datatype cell = Missing | Str string | Num real

type_synonym frame = "(string \<times> cell list) list"

text \<open>Boundary values of a discretiser: a finite float or one of the two infinities.\<close>

datatype bound = NegInf | Fin real | PosInf

fun bound_less :: "bound \<Rightarrow> bound \<Rightarrow> bool" where
  "bound_less NegInf b = (b \<noteq> NegInf)"
| "bound_less (Fin x) (Fin y) = (x < y)"
| "bound_less (Fin x) PosInf = True"
| "bound_less (Fin x) NegInf = False"
| "bound_less PosInf b = False"

definition bound_le :: "bound \<Rightarrow> bound \<Rightarrow> bool" where
  "bound_le a b = (a = b \<or> bound_less a b)"

text \<open>\<open>isinstance(x, int)\<close> and Python truthiness on the modelled argument values.\<close>

fun isinstance_int :: "pyval \<Rightarrow> bool" where
  "isinstance_int (PInt n) = True"
| "isinstance_int v = False"

fun truthy :: "pyval \<Rightarrow> bool" where
  "truthy PNone = False"
| "truthy (PInt n) = (n \<noteq> 0)"
| "truthy (PFloat r) = (r \<noteq> 0)"
| "truthy (PStr s) = (s \<noteq> [])"

section \<open>IncreasingWidthDiscretiser\<close>

record discretiser =
  bins :: int
  return_object :: bool
  return_boundaries :: bool

text \<open>
  \<open>IncreasingWidthDiscretiser.__init__\<close>. The argument \<open>bins\<close> is any Python value;
  \<open>return_object\<close> and \<open>return_boundaries\<close> are taken as booleans already, so the
  superclass constructor (not part of the sources at hand) accepts them. The argument
  \<open>variables\<close> and its check are left out: the selected variables are a parameter of
  \<open>fit\<close>.
\<close>

definition IncreasingWidthDiscretiser_init ::
    "pyval \<Rightarrow> bool \<Rightarrow> bool \<Rightarrow> error + discretiser" where
  "IncreasingWidthDiscretiser_init b ro rb =
     (case b of
        PInt n \<Rightarrow> Inr \<lparr>bins = n, return_object = ro, return_boundaries = rb\<rparr>
      | _ \<Rightarrow> Inl ValueError)"

text \<open>\<open>Series.min()\<close> and \<open>Series.max()\<close> of a non-empty numeric column.\<close>

definition col_min :: "real list \<Rightarrow> real" where
  "col_min xs = fold min (tl xs) (hd xs)"

definition col_max :: "real list \<Rightarrow> real" where
  "col_max xs = fold max (tl xs) (hd xs)"

text \<open>
  The body of the loop of \<open>IncreasingWidthDiscretiser.fit\<close> for one variable, on the
  values of its column. \<open>1.0 / self.bins\<close> raises \<open>ZeroDivisionError\<close> for
  \<open>bins = 0\<close>; \<open>np.arange(1, bins + 1)\<close> is the list of exponents \<open>1..bins\<close>, empty
  for \<open>bins < 1\<close>; \<open>np.r_\<close> prepends the minimum; \<open>np.sort\<close> sorts ascending; the two
  list assignments overwrite the first and the last element.
\<close>

definition fit_var :: "int \<Rightarrow> real list \<Rightarrow> error + bound list" where
  "fit_var k xs =
     (if k = 0 then Inl ZeroDivisionError
      else
        let minv = col_min xs;
            maxv = col_max xs;
            increment = (maxv - minv) powr (1 / real_of_int k);
            bins0 = minv # map (\<lambda>e. minv + increment ^ nat e) [1..k];
            bins1 = map Fin (sort bins0);
            bins2 = bins1[0 := NegInf];
            bins3 = bins2[length bins2 - 1 := PosInf]
        in Inr bins3)"

text \<open>
  A numeric column as the list of its values; \<open>None\<close> when a cell is a string or
  missing.
\<close>

fun col_reals :: "cell list \<Rightarrow> real list option" where
  "col_reals [] = Some []"
| "col_reals (Num r # cs) = map_option ((#) r) (col_reals cs)"
| "col_reals (c # cs) = None"

text \<open>
  Modelled from the spec: the checks of the selected variables in
  \<open>BaseDiscretiser.fit\<close>, which is not part of the sources at hand. A selected variable
  must be a column, its values must contain no missing entry (a data-validation error
  detected upstream) and must be numeric.
\<close>

fun check_numeric_vars :: "frame \<Rightarrow> string list \<Rightarrow> error + unit" where
  "check_numeric_vars X [] = Inr ()"
| "check_numeric_vars X (var # vs) =
     (case map_of X var of
        None \<Rightarrow> Inl KeyError
      | Some col \<Rightarrow>
          if Missing \<in> set col then Inl ValueError
          else if col_reals col = None then Inl TypeError
          else check_numeric_vars X vs)"

text \<open>\<open>DataFrame.empty\<close>: the table has no column or no row.\<close>

definition frame_empty :: "frame \<Rightarrow> bool" where
  "frame_empty X = (X = [] \<or> (\<exists>c \<in> set X. snd c = []))"

text \<open>
  Modelled from the spec: \<open>BaseDiscretiser.fit\<close>, which the discretiser calls first and
  which is not part of the sources at hand. It rejects an empty table (wrong input
  shape) and checks the selected variables, which are its result \<open>variables_\<close> and a
  parameter here.
\<close>

definition base_discretiser_fit :: "frame \<Rightarrow> string list \<Rightarrow> error + frame" where
  "base_discretiser_fit X vars =
     (if frame_empty X then Inl ValueError
      else case check_numeric_vars X vars of
             Inl e \<Rightarrow> Inl e
           | Inr u \<Rightarrow> Inr X)"

text \<open>
  The loop \<open>for var in self.variables_\<close>, threading \<open>binner_dict_\<close> (a dict in
  insertion order).
\<close>

fun fit_loop ::
    "int \<Rightarrow> frame \<Rightarrow> string list \<Rightarrow> (string \<times> bound list) list
      \<Rightarrow> error + (string \<times> bound list) list" where
  "fit_loop k X [] d = Inr d"
| "fit_loop k X (var # vs) d =
     (case map_of X var of
        None \<Rightarrow> Inl KeyError
      | Some col \<Rightarrow>
          (case col_reals col of
             None \<Rightarrow> Inl TypeError
           | Some xs \<Rightarrow>
               (case fit_var k xs of
                  Inl e \<Rightarrow> Inl e
                | Inr bs \<Rightarrow> fit_loop k X vs (AList.update var bs d))))"

definition discretiser_fit ::
    "discretiser \<Rightarrow> string list \<Rightarrow> frame \<Rightarrow> error + (string \<times> bound list) list" where
  "discretiser_fit self vars X =
     (case base_discretiser_fit X vars of
        Inl e \<Rightarrow> Inl e
      | Inr X' \<Rightarrow> fit_loop (bins self) X' vars [])"

text \<open>
  The boundary construction as the specification words it: the increment is
  \<open>(hi - lo) ** (1 / bins)\<close>; the sequence is \<open>lo\<close> followed by \<open>lo + increment ** e\<close>
  for the exponents \<open>e = 1..bins\<close>, sorted ascending; its first element is replaced
  by minus infinity and its last by plus infinity.
\<close>

definition spec_sequence :: "real \<Rightarrow> real \<Rightarrow> nat \<Rightarrow> real list" where
  "spec_sequence lo hi k =
     (let increment = (hi - lo) powr (1 / real k)
      in sort (lo # map (\<lambda>e. lo + increment ^ e) [1..<Suc k]))"

definition spec_boundaries :: "real \<Rightarrow> real \<Rightarrow> nat \<Rightarrow> bound list" where
  "spec_boundaries lo hi k =
     NegInf # map Fin (butlast (tl (spec_sequence lo hi k))) @ [PosInf]"

section \<open>StringSimilarityEncoder\<close>

subsection \<open>The similarity function\<close>

text \<open>
  \<open>_gpm_fast\<close> calls \<open>difflib.SequenceMatcher(None, str(x1), str(x2)).quick_ratio()\<close>
  of the Python standard library. \<open>quick_ratio\<close> counts in \<open>fullbcount\<close> how often each
  element occurs in \<open>b\<close>, then walks through \<open>a\<close> with a dictionary \<open>avail\<close> of the
  occurrences of \<open>b\<close> not yet used up, counting a match whenever one is left;
  \<open>_calculate_ratio\<close> returns \<open>2.0 * matches / length\<close>, and \<open>1.0\<close> for length 0.
\<close>

definition dict_get :: "('k \<rightharpoonup> 'v) \<Rightarrow> 'k \<Rightarrow> 'v \<Rightarrow> 'v" where
  "dict_get m k d = (case m k of None \<Rightarrow> d | Some v \<Rightarrow> v)"

definition fullbcount :: "string \<Rightarrow> (char \<rightharpoonup> int)" where
  "fullbcount b = fold (\<lambda>elt m. m(elt \<mapsto> dict_get m elt 0 + 1)) b Map.empty"

fun quick_loop :: "(char \<rightharpoonup> int) \<Rightarrow> string \<Rightarrow> (char \<rightharpoonup> int) \<Rightarrow> int \<Rightarrow> int" where
  "quick_loop fb [] avail matches = matches"
| "quick_loop fb (elt # a) avail matches =
     (let numb = (case avail elt of Some n \<Rightarrow> n | None \<Rightarrow> dict_get fb elt 0)
      in quick_loop fb a (avail(elt \<mapsto> numb - 1))
           (if numb > 0 then matches + 1 else matches))"

definition calculate_ratio :: "int \<Rightarrow> nat \<Rightarrow> real" where
  "calculate_ratio matches len =
     (if len \<noteq> 0 then 2 * real_of_int matches / real len else 1)"

definition quick_ratio :: "string \<Rightarrow> string \<Rightarrow> real" where
  "quick_ratio a b =
     calculate_ratio (quick_loop (fullbcount b) a Map.empty 0) (length a + length b)"

text \<open>
  \<open>str(x)\<close> of a cell. The text of a number is Python's rendering of the float, which
  is not modelled: it is the parameter \<open>str_float\<close> of everything that needs it.
\<close>

fun py_str :: "(real \<Rightarrow> string) \<Rightarrow> cell \<Rightarrow> string" where
  "py_str str_float (Str s) = s"
| "py_str str_float (Num r) = str_float r"
| "py_str str_float Missing = ''nan''"

definition gpm_fast :: "(real \<Rightarrow> string) \<Rightarrow> cell \<Rightarrow> cell \<Rightarrow> real" where
  "gpm_fast str_float x1 x2 = quick_ratio (py_str str_float x1) (py_str str_float x2)"

text \<open>
  \<open>_gpm_fast_vec = np.vectorize(_gpm_fast)\<close>, called with one value and the vocabulary:
  the scores of the value against each entry. \<open>np.vectorize\<close> raises \<open>ValueError\<close> on
  an input of size 0.
\<close>

definition gpm_fast_vec :: "(real \<Rightarrow> string) \<Rightarrow> cell \<Rightarrow> cell list \<Rightarrow> error + cell list" where
  "gpm_fast_vec str_float x vocab =
     (if vocab = [] then Inl ValueError
      else Inr (map (\<lambda>c. Num (gpm_fast str_float x c)) vocab))"

subsection \<open>Construction\<close>

record encoder =
  top_categories :: pyval
  handle_missing :: pyval
  ignore_format :: bool

text \<open>
  \<open>StringSimilarityEncoder.__init__\<close>: the two checks of the constructor, on any
  Python value. \<open>ignore_format\<close> is a boolean already, so the superclass constructor
  (not part of the sources at hand) accepts it.
\<close>

definition StringSimilarityEncoder_init :: "pyval \<Rightarrow> pyval \<Rightarrow> bool \<Rightarrow> error + encoder" where
  "StringSimilarityEncoder_init tc hm igf =
     (if truthy tc \<and> \<not> isinstance_int tc then Inl ValueError
      else if hm \<notin> {PStr ''error'', PStr ''impute'', PStr ''ignore''} then Inl ValueError
      else Inr \<lparr>top_categories = tc, handle_missing = hm, ignore_format = igf\<rparr>)"

subsection \<open>Fit\<close>

text \<open>
  The state after \<open>fit\<close>: the parameters and the learned attributes \<open>variables_\<close>,
  \<open>feature_names_in_\<close>, \<open>n_features_in_\<close> and \<open>encoder_dict_\<close> (written here without
  the trailing underscore). \<open>encoder_dict_\<close> is a dict in insertion order.
\<close>

record fitted_encoder = encoder +
  variables :: "string list"
  feature_names_in :: "string list"
  n_features_in :: nat
  encoder_dict :: "(string \<times> cell list) list"

definition fillna :: "cell \<Rightarrow> cell list \<Rightarrow> cell list" where
  "fillna v col = map (\<lambda>c. if c = Missing then v else c) col"

definition dropna :: "cell list \<Rightarrow> cell list" where
  "dropna col = filter (\<lambda>c. c \<noteq> Missing) col"

text \<open>
  Modelled from the spec: the ranking utility \<open>Series.value_counts\<close> of pandas, a
  library outside the sources at hand. It counts the occurrences of each distinct
  non-missing value (\<open>dropna=True\<close> is its default), in the order in which the values
  are first seen, and orders them descending by count, keeping the first-seen order
  among equal counts (a stable sort).
\<close>

fun count_add :: "cell \<Rightarrow> (cell \<times> nat) list \<Rightarrow> (cell \<times> nat) list" where
  "count_add x [] = [(x, 1)]"
| "count_add x ((y, n) # r) = (if x = y then (y, Suc n) # r else (y, n) # count_add x r)"

definition value_counts :: "cell list \<Rightarrow> (cell \<times> nat) list" where
  "value_counts col = sort_key (\<lambda>p. - int (snd p)) (fold count_add (dropna col) [])"

text \<open>
  \<open>Series.head(n)\<close> is \<open>iloc[:n]\<close>: everything for \<open>None\<close>, the first \<open>n\<close> rows for
  \<open>n \<ge> 0\<close>, all but the last \<open>-n\<close> rows for \<open>n < 0\<close>, and a \<open>TypeError\<close> for a slice
  bound that is not an integer.
\<close>

fun head :: "pyval \<Rightarrow> 'a list \<Rightarrow> error + 'a list" where
  "head PNone xs = Inr xs"
| "head (PInt n) xs =
     Inr (if 0 \<le> n then take (nat n) xs else take (length xs - nat (- n)) xs)"
| "head v xs = Inl TypeError"

text \<open>\<open>col.value_counts().head(top_categories).index.tolist()\<close>\<close>

definition learn_categories :: "pyval \<Rightarrow> cell list \<Rightarrow> error + cell list" where
  "learn_categories tc col =
     (case head tc (value_counts col) of
        Inl e \<Rightarrow> Inl e
      | Inr h \<Rightarrow> Inr (map fst h))"

text \<open>
  Modelled from the spec: \<open>check_X\<close>, a helper of the repository that is not part of the
  sources at hand. An empty table has the wrong input shape: a data-validation error.
\<close>

definition check_X :: "frame \<Rightarrow> error + frame" where
  "check_X X = (if frame_empty X then Inl ValueError else Inr X)"

text \<open>
  Modelled from the spec: \<open>_check_contains_na\<close>, a helper of the repository that is not
  part of the sources at hand. Any missing entry in a selected column is a
  data-validation error; selecting a column that the table does not have raises
  \<open>KeyError\<close>.
\<close>

definition check_contains_na :: "frame \<Rightarrow> string list \<Rightarrow> error + unit" where
  "check_contains_na X vars =
     (if \<exists>v \<in> set vars. map_of X v = None then Inl KeyError
      else if \<exists>v \<in> set vars. (case map_of X v of None \<Rightarrow> False | Some col \<Rightarrow> Missing \<in> set col)
      then Inl ValueError
      else Inr ())"

text \<open>
  Modelled from the spec: \<open>_check_encoding_dictionary\<close>, a helper of the repository that
  is not part of the sources at hand. An encoder that learned nothing (an empty
  variable list) is a data-validation error.
\<close>

definition check_encoding_dictionary :: "(string \<times> cell list) list \<Rightarrow> error + unit" where
  "check_encoding_dictionary d = (if d = [] then Inl ValueError else Inr ())"

text \<open>
  The loop \<open>for var in self.variables_: self.encoder_dict_[var] = ...\<close>; \<open>f\<close> is the
  expression on the column \<open>X[var]\<close> of the branch at hand.
\<close>

fun vocab_loop ::
    "(cell list \<Rightarrow> error + cell list) \<Rightarrow> frame \<Rightarrow> string list \<Rightarrow> (string \<times> cell list) list
      \<Rightarrow> error + (string \<times> cell list) list" where
  "vocab_loop f X [] d = Inr d"
| "vocab_loop f X (var # vs) d =
     (case map_of X var of
        None \<Rightarrow> Inl KeyError
      | Some col \<Rightarrow>
          (case f col of
             Inl e \<Rightarrow> Inl e
           | Inr voc \<Rightarrow> vocab_loop f X vs (AList.update var voc d)))"

text \<open>
  \<open>StringSimilarityEncoder.fit\<close>. The selected variables \<open>variables_\<close> are the result of
  \<open>_check_or_select_variables\<close> (not part of the sources at hand) and a parameter here.
  When \<open>handle_missing\<close> is none of the three policies no branch runs and the
  dictionary stays empty.
\<close>

definition encoder_fit :: "encoder \<Rightarrow> string list \<Rightarrow> frame \<Rightarrow> error + fitted_encoder" where
  "encoder_fit self vars X0 =
     (case check_X X0 of
        Inl e \<Rightarrow> Inl e
      | Inr X \<Rightarrow>
          (case
             (if handle_missing self = PStr ''error'' then
                (case check_contains_na X vars of
                   Inl e \<Rightarrow> Inl e
                 | Inr u \<Rightarrow> vocab_loop (learn_categories (top_categories self)) X vars [])
              else if handle_missing self = PStr ''impute'' then
                vocab_loop (\<lambda>col. learn_categories (top_categories self) (fillna (Str []) col))
                  X vars []
              else if handle_missing self = PStr ''ignore'' then
                vocab_loop (learn_categories (top_categories self)) X vars []
              else Inr [])
           of
             Inl e \<Rightarrow> Inl e
           | Inr d \<Rightarrow>
               (case check_encoding_dictionary d of
                  Inl e \<Rightarrow> Inl e
                | Inr u \<Rightarrow>
                    Inr \<lparr>top_categories = top_categories self,
                         handle_missing = handle_missing self,
                         ignore_format = ignore_format self,
                         variables = vars,
                         feature_names_in = map fst X,
                         n_features_in = length X,
                         encoder_dict = d\<rparr>)))"

subsection \<open>Transform\<close>

text \<open>\<open>Series.unique()\<close>: the distinct values in the order in which they are first seen.\<close>

definition unique :: "cell list \<Rightarrow> cell list" where
  "unique col = fold (\<lambda>x acc. if x \<in> set acc then acc else acc @ [x]) col []"

text \<open>
  The dict comprehension \<open>{x: _gpm_fast_vec(x, vocab) for x in new_categories}\<close>, as a
  dict in insertion order.
\<close>

fun build_dict ::
    "(real \<Rightarrow> string) \<Rightarrow> cell list \<Rightarrow> cell list \<Rightarrow> error + (cell \<times> cell list) list" where
  "build_dict str_float vocab [] = Inr []"
| "build_dict str_float vocab (x # xs) =
     (case gpm_fast_vec str_float x vocab of
        Inl e \<Rightarrow> Inl e
      | Inr v \<Rightarrow>
          (case build_dict str_float vocab xs of
             Inl e \<Rightarrow> Inl e
           | Inr d \<Rightarrow> Inr ((x, v) # d)))"

text \<open>
  \<open>Series.map(dict)\<close>: each cell is replaced by its entry (a key that the dict does not
  have gives a single NaN). \<open>np.vstack\<close> stacks the rows; it raises \<open>ValueError\<close> when
  there is no row or when the rows differ in length.
\<close>

definition series_map :: "(cell \<times> cell list) list \<Rightarrow> cell list \<Rightarrow> cell list list" where
  "series_map d col = map (\<lambda>c. case map_of d c of None \<Rightarrow> [Missing] | Some v \<Rightarrow> v) col"

definition vstack :: "cell list list \<Rightarrow> error + cell list list" where
  "vstack rows =
     (if rows = [] then Inl ValueError
      else if \<exists>r \<in> set rows. length r \<noteq> length (hd rows) then Inl ValueError
      else Inr rows)"

text \<open>
  The body of the loop of \<open>transform\<close> for one variable, from \<open>new_categories\<close> to
  \<open>encoded\<close>: \<open>col\<close> is the column \<open>X[var]\<close> (after the imputation, if any), \<open>vocab\<close> is
  \<open>self.encoder_dict_[var]\<close>. The result is the matrix \<open>encoded\<close> as the list of its
  rows; a NaN score is the cell \<open>Missing\<close>.
\<close>

definition encode_var ::
    "(real \<Rightarrow> string) \<Rightarrow> pyval \<Rightarrow> cell list \<Rightarrow> cell list \<Rightarrow> error + cell list list" where
  "encode_var str_float hm vocab col =
     (let new_categories = unique (dropna col)
      in case build_dict str_float vocab new_categories of
           Inl e \<Rightarrow> Inl e
         | Inr d0 \<Rightarrow>
             (let column_encoder_dict =
                    AList.update Missing (replicate (length vocab) Missing) d0
              in case vstack (series_map column_encoder_dict col) of
                   Inl e \<Rightarrow> Inl e
                 | Inr encoded \<Rightarrow>
                     Inr (if hm = PStr ''ignore''
                          then map2 (\<lambda>c row. if c = Missing
                                         then replicate (length row) Missing else row)
                                 col encoded
                          else encoded)))"

text \<open>
  Assigning a column: \<open>X[name] = values\<close> replaces the column of that name where it
  stands, and appends a new column when the table has none of that name.
\<close>

fun set_column :: "string \<Rightarrow> cell list \<Rightarrow> frame \<Rightarrow> frame" where
  "set_column name v [] = [(name, v)]"
| "set_column name v (c # cs) =
     (if fst c = name then (name, v) # cs else c # set_column name v cs)"

text \<open>
  The loop \<open>for var in self.variables_\<close> of \<open>transform\<close>, threading the table (the
  imputation writes the filled column back) and the list \<open>new_values\<close>.
\<close>

fun transform_loop ::
    "(real \<Rightarrow> string) \<Rightarrow> pyval \<Rightarrow> (string \<times> cell list) list \<Rightarrow> string list \<Rightarrow> frame
      \<Rightarrow> cell list list list \<Rightarrow> error + frame \<times> cell list list list" where
  "transform_loop str_float hm ed [] X new_values = Inr (X, new_values)"
| "transform_loop str_float hm ed (var # vs) X new_values =
     (case map_of X var of
        None \<Rightarrow> Inl KeyError
      | Some col0 \<Rightarrow>
          (let X1 = (if hm = PStr ''impute''
                     then set_column var (fillna (Str []) col0) X else X);
               col = (if hm = PStr ''impute'' then fillna (Str []) col0 else col0)
           in case map_of ed var of
                None \<Rightarrow> Inl KeyError
              | Some vocab \<Rightarrow>
                  (case encode_var str_float hm vocab col of
                     Inl e \<Rightarrow> Inl e
                   | Inr encoded \<Rightarrow>
                       transform_loop str_float hm ed vs X1 (new_values @ [encoded]))))"

text \<open>\<open>_get_new_features_name\<close>: the names of the created columns.\<close>

definition feature_name :: "(real \<Rightarrow> string) \<Rightarrow> string \<Rightarrow> cell \<Rightarrow> string" where
  "feature_name str_float feature category =
     (if category = Str [] then feature @ ''_nan''
      else feature @ ''_'' @ py_str str_float category)"

fun get_new_features_name ::
    "(real \<Rightarrow> string) \<Rightarrow> (string \<times> cell list) list \<Rightarrow> string list \<Rightarrow> error + string list" where
  "get_new_features_name str_float ed [] = Inr []"
| "get_new_features_name str_float ed (feature # fs) =
     (case map_of ed feature of
        None \<Rightarrow> Inl KeyError
      | Some vocab \<Rightarrow>
          (case get_new_features_name str_float ed fs of
             Inl e \<Rightarrow> Inl e
           | Inr names \<Rightarrow> Inr (map (feature_name str_float feature) vocab @ names)))"

text \<open>
  \<open>np.hstack\<close> puts the matrices side by side: row \<open>i\<close> of the result is the
  concatenation of the rows \<open>i\<close>. It raises \<open>ValueError\<close> for an empty list and for
  matrices that differ in their number of rows.
\<close>

definition hstack :: "cell list list list \<Rightarrow> error + cell list list" where
  "hstack ms =
     (if ms = [] then Inl ValueError
      else if \<exists>m \<in> set ms. length m \<noteq> length (hd ms) then Inl ValueError
      else Inr (map (\<lambda>i. concat (map (\<lambda>m. m ! i) ms)) [0..<length (hd ms)]))"

text \<open>
  \<open>X.loc[:, new_features] = matrix\<close>: column \<open>j\<close> of the matrix is assigned to the
  \<open>j\<close>-th name; a name that the table has is overwritten in place, the others are
  appended in the order of the names. A matrix whose width is not the number of names
  raises \<open>ValueError\<close>. (What pandas does when \<open>new_features\<close> repeats a name is not
  modelled: the assignments are made one after the other.)
\<close>

definition matrix_column :: "cell list list \<Rightarrow> nat \<Rightarrow> cell list" where
  "matrix_column rows j = map (\<lambda>r. r ! j) rows"

definition loc_assign :: "string list \<Rightarrow> cell list list \<Rightarrow> frame \<Rightarrow> error + frame" where
  "loc_assign names rows X =
     (if \<exists>r \<in> set rows. length r \<noteq> length names then Inl ValueError
      else Inr (fold (\<lambda>j. set_column (names ! j) (matrix_column rows j))
                  [0..<length names] X))"

text \<open>\<open>X.drop(labels, axis=1)\<close>: \<open>KeyError\<close> for a label that is not a column.\<close>

definition drop_columns :: "string list \<Rightarrow> frame \<Rightarrow> error + frame" where
  "drop_columns labels X =
     (if \<exists>l \<in> set labels. l \<notin> set (map fst X) then Inl KeyError
      else Inr (filter (\<lambda>c. fst c \<notin> set labels) X))"

text \<open>
  Modelled from the spec: \<open>_check_transform_input_and_state\<close>, not part of the sources
  at hand. It rejects an empty table and a table whose columns are not those seen by
  \<open>fit\<close> (a mismatched variable list).
\<close>

definition check_transform_input_and_state :: "fitted_encoder \<Rightarrow> frame \<Rightarrow> error + frame" where
  "check_transform_input_and_state self X =
     (case check_X X of
        Inl e \<Rightarrow> Inl e
      | Inr X' \<Rightarrow> if map fst X' \<noteq> feature_names_in self then Inl ValueError else Inr X')"

text \<open>
  \<open>StringSimilarityEncoder.transform\<close> on a fitted encoder (\<open>check_is_fitted\<close> passes).
\<close>

definition encoder_transform ::
    "(real \<Rightarrow> string) \<Rightarrow> fitted_encoder \<Rightarrow> frame \<Rightarrow> error + frame" where
  "encoder_transform str_float self X0 =
     (case check_transform_input_and_state self X0 of
        Inl e \<Rightarrow> Inl e
      | Inr X \<Rightarrow>
          (case (if handle_missing self = PStr ''error''
                 then check_contains_na X (variables self) else Inr ()) of
             Inl e \<Rightarrow> Inl e
           | Inr u \<Rightarrow>
               (case transform_loop str_float (handle_missing self) (encoder_dict self)
                       (variables self) X [] of
                  Inl e \<Rightarrow> Inl e
                | Inr (X', new_values) \<Rightarrow>
                    (case get_new_features_name str_float (encoder_dict self)
                            (variables self) of
                       Inl e \<Rightarrow> Inl e
                     | Inr new_features \<Rightarrow>
                         (case hstack new_values of
                            Inl e \<Rightarrow> Inl e
                          | Inr matrix \<Rightarrow>
                              (case loc_assign new_features matrix X' of
                                 Inl e \<Rightarrow> Inl e
                               | Inr X'' \<Rightarrow> drop_columns (variables self) X''))))))"

subsection \<open>Notions of the claims\<close>

text \<open>
  The row of scores that a cell of an encoded column stands for: all missing for a
  missing cell, the similarities to the entries of the vocabulary otherwise.
\<close>

definition score_row :: "(real \<Rightarrow> string) \<Rightarrow> cell list \<Rightarrow> cell \<Rightarrow> cell list" where
  "score_row str_float vocab c =
     (if c = Missing then replicate (length vocab) Missing
      else map (\<lambda>v. Num (gpm_fast str_float c v)) vocab)"

text \<open>
  The values of a column after the normalisation of the missing-value policy (imputed
  by the empty string under \<open>impute\<close>, and missing entries left out), and the
  frequency ranking of a list of values: the distinct values, a more frequent value
  before a less frequent one and, among equally frequent values, the one first seen
  earlier before the other.
\<close>

definition normalised :: "pyval \<Rightarrow> cell list \<Rightarrow> cell list" where
  "normalised hm col = dropna (if hm = PStr ''impute'' then fillna (Str []) col else col)"

definition first_index :: "cell list \<Rightarrow> cell \<Rightarrow> nat" where
  "first_index ys v = length (takeWhile (\<lambda>y. y \<noteq> v) ys)"

definition ranks_before :: "cell list \<Rightarrow> cell \<Rightarrow> cell \<Rightarrow> bool" where
  "ranks_before ys a b =
     (count_list ys b < count_list ys a
      \<or> (count_list ys a = count_list ys b \<and> first_index ys a < first_index ys b))"

definition frequency_ranking :: "cell list \<Rightarrow> cell list \<Rightarrow> bool" where
  "frequency_ranking ys r = (distinct r \<and> set r = set ys \<and> sorted_wrt (ranks_before ys) r)"

text \<open>The size of the vocabulary that a dictionary holds for a variable.\<close>

definition vocab_size :: "(string \<times> cell list) list \<Rightarrow> string \<Rightarrow> nat" where
  "vocab_size ed var = (case map_of ed var of None \<Rightarrow> 0 | Some vocab \<Rightarrow> length vocab)"

text \<open>
  The block of similarity scores of a variable, row by row: the score rows of the cells
  of its column (imputed under the policy \<open>impute\<close>).
\<close>

definition imputed :: "pyval \<Rightarrow> cell list \<Rightarrow> cell list" where
  "imputed hm col = (if hm = PStr ''impute'' then fillna (Str []) col else col)"

definition block_of ::
    "(real \<Rightarrow> string) \<Rightarrow> pyval \<Rightarrow> (string \<times> cell list) list \<Rightarrow> frame \<Rightarrow> string
      \<Rightarrow> cell list list" where
  "block_of str_float hm ed X var =
     (case map_of X var of
        None \<Rightarrow> []
      | Some col \<Rightarrow>
          (case map_of ed var of
             None \<Rightarrow> []
           | Some vocab \<Rightarrow> map (score_row str_float vocab) (imputed hm col)))"

text \<open>A table all of whose columns have \<open>n\<close> rows.\<close>

definition rectangular :: "frame \<Rightarrow> nat \<Rightarrow> bool" where
  "rectangular X n = (\<forall>c \<in> set X. length (snd c) = n)"

section \<open>Properties of the discretiser\<close>


lemma upd_first_last:
  assumes "2 \<le> length ys"
  shows "(ys[0 := a])[length (ys[0 := a]) - 1 := b] = a # butlast (tl ys) @ [b]"
proof -
  from assms obtain y zs where ys: "ys = y # zs"
    by (cases ys) auto
  with assms have "zs \<noteq> []" by auto
  then obtain ws z where zs: "zs = ws @ [z]"
    by (cases zs rule: rev_cases) auto
  show ?thesis by (simp add: ys zs list_update_append)
qed

lemma map_nat_upto: "map nat [1..int n] = [1..<Suc n]"
  by (induction n) (auto simp: upto_rec2)

lemma fold_min_le: "fold min ys a \<le> (a::real)"
proof (induction ys arbitrary: a)
  case Nil show ?case by simp
next
  case (Cons y ys)
  have "fold min ys (min y a) \<le> min y a" by (rule Cons.IH)
  then show ?case by simp
qed

lemma fold_max_ge: "(a::real) \<le> fold max ys a"
proof (induction ys arbitrary: a)
  case Nil show ?case by simp
next
  case (Cons y ys)
  have "max y a \<le> fold max ys (max y a)" by (rule Cons.IH)
  then show ?case by simp
qed

lemma col_min_le_max: "col_min xs \<le> col_max xs"
  unfolding col_min_def col_max_def using fold_min_le fold_max_ge by (rule order_trans)


lemma length_spec_sequence: "length (spec_sequence lo hi k) = Suc k"
  by (simp add: spec_sequence_def Let_def del: upt_Suc)

lemma sorted_spec_sequence: "sorted (spec_sequence lo hi k)"
  unfolding spec_sequence_def Let_def by (rule sorted_sort)

lemma exponents_nat: "0 \<le> k \<Longrightarrow> map nat [1..k] = [1..<Suc (nat k)]"
  using map_nat_upto [of "nat k"] by simp

lemma fit_var_spec:
  assumes "0 < k"
  shows "fit_var k xs = Inr (spec_boundaries (col_min xs) (col_max xs) (nat k))"
proof -
  let ?inc = "(col_max xs - col_min xs) powr (1 / real_of_int k)"
  let ?s = "sort (col_min xs # map (\<lambda>e. col_min xs + ?inc ^ nat e) [1..k])"
  have m: "map (\<lambda>e. col_min xs + ?inc ^ nat e) [1..k]
         = map (\<lambda>e. col_min xs + ?inc ^ e) (map nat [1..k])"
    by (simp add: comp_def)
  have r: "real (nat k) = real_of_int k" using assms by simp
  have s: "?s = spec_sequence (col_min xs) (col_max xs) (nat k)"
    unfolding spec_sequence_def Let_def m r using assms by (simp only: exponents_nat)
  have len: "2 \<le> length (map Fin ?s)"
    unfolding s using assms by (simp add: length_spec_sequence)
  have "fit_var k xs = Inr (((map Fin ?s)[0 := NegInf])[length ((map Fin ?s)[0 := NegInf]) - 1 := PosInf])"
    using assms unfolding fit_var_def Let_def by simp
  also have "\<dots> = Inr (NegInf # butlast (tl (map Fin ?s)) @ [PosInf])"
    using upd_first_last [OF len] by simp
  also have "\<dots> = Inr (spec_boundaries (col_min xs) (col_max xs) (nat k))"
    unfolding s spec_boundaries_def by (simp add: map_butlast map_tl)
  finally show ?thesis .
qed


lemma bound_le_wrap:
  "sorted zs \<Longrightarrow> sorted_wrt bound_le (NegInf # map Fin zs @ [PosInf])"
  by (induction zs) (auto simp: bound_le_def sorted_wrt_append)

lemma bound_less_wrap:
  "sorted zs \<Longrightarrow> distinct zs \<Longrightarrow> sorted_wrt bound_less (NegInf # map Fin zs @ [PosInf])"
proof -
  assume "sorted zs" "distinct zs"
  then have "sorted_wrt (<) zs" by (simp add: strict_sorted_iff)
  then have "sorted_wrt bound_less (map Fin zs)"
    by (simp add: sorted_wrt_map)
  then show ?thesis by (auto simp: sorted_wrt_append)
qed

lemma sorted_middle: "sorted s \<Longrightarrow> sorted (butlast (tl s))"
  by (simp add: sorted_butlast sorted_tl)

lemma distinct_middle: "distinct s \<Longrightarrow> distinct (butlast (tl s))"
  by (simp add: distinct_butlast distinct_tl)

lemma short_strict: "length zs \<le> 1 \<Longrightarrow> sorted_wrt bound_less (NegInf # map Fin zs @ [PosInf])"
  by (cases zs) auto

lemma power_inj_on_pos:
  fixes a :: real
  assumes "0 < a" "a \<noteq> 1"
  shows "inj_on (\<lambda>e::nat. a ^ e) A"
proof (rule inj_onI)
  fix x y :: nat assume "a ^ x = a ^ y"
  show "x = y"
  proof (cases "1 < a")
    case True then show ?thesis using \<open>a ^ x = a ^ y\<close> by simp
  next
    case False
    then have "a < 1" using assms by simp
    then show ?thesis using \<open>a ^ x = a ^ y\<close> assms(1)
      by (metis power_inject_exp' assms(2) ) 
  qed
qed

lemma distinct_spec_sequence:
  assumes "lo < hi" "hi - lo \<noteq> 1" "0 < k"
  shows "distinct (spec_sequence lo hi k)"
proof -
  let ?a = "(hi - lo) powr (1 / real k)"
  have pos: "0 < ?a" using assms by simp
  have ne: "?a \<noteq> 1" using assms by simp
  have inj: "inj_on (\<lambda>e. lo + ?a ^ e) (set [1..<Suc k])"
    using power_inj_on_pos [OF pos ne] by (auto simp: inj_on_def)
  have "lo \<notin> (\<lambda>e. lo + ?a ^ e) ` set [1..<Suc k]"
    using pos by auto
  then have "distinct (lo # map (\<lambda>e. lo + ?a ^ e) [1..<Suc k])"
    using inj by (simp add: distinct_map del: upt_Suc)
  then show ?thesis unfolding spec_sequence_def Let_def by (simp only: distinct_sort)
qed


lemma fit_loop_lookup:
  "fit_loop k X vs d = Inr d' \<Longrightarrow> map_of d' var = Some bs \<Longrightarrow>
     map_of d var = Some bs \<or>
     (\<exists>col xs. map_of X var = Some col \<and> col_reals col = Some xs \<and> fit_var k xs = Inr bs)"
proof (induction vs arbitrary: d)
  case Nil
  then show ?case by simp
next
  case (Cons v vs)
  from Cons.prems(1) obtain col xs b where
    c: "map_of X v = Some col" "col_reals col = Some xs" "fit_var k xs = Inr b"
    and r: "fit_loop k X vs (AList.update v b d) = Inr d'"
    by (auto split: option.splits sum.splits)
  from Cons.IH [OF r Cons.prems(2)] show ?case
    using c by (auto simp: update_conv' split: if_splits)
qed

lemma fit_loop_keeps:
  "fit_loop k X vs d = Inr d' \<Longrightarrow> var \<notin> set vs \<Longrightarrow> map_of d' var = map_of d var"
proof (induction vs arbitrary: d)
  case Nil
  then show ?case by simp
next
  case (Cons v vs)
  from Cons.prems(1) obtain b where
    r: "fit_loop k X vs (AList.update v b d) = Inr d'"
    by (auto split: option.splits sum.splits)
  from Cons.prems(2) have "var \<notin> set vs" "v \<noteq> var" by auto
  with Cons.IH [OF r] show ?case by (simp add: update_conv')
qed

lemma fit_loop_stores:
  "fit_loop k X vs d = Inr d' \<Longrightarrow> var \<in> set vs \<Longrightarrow>
   map_of X var = Some col \<Longrightarrow> col_reals col = Some xs \<Longrightarrow>
   \<exists>bs. fit_var k xs = Inr bs \<and> map_of d' var = Some bs"
proof (induction vs arbitrary: d)
  case Nil
  then show ?case by simp
next
  case (Cons v vs)
  from Cons.prems(1) obtain col' xs' b where
    c: "map_of X v = Some col'" "col_reals col' = Some xs'" "fit_var k xs' = Inr b"
    and r: "fit_loop k X vs (AList.update v b d) = Inr d'"
    by (auto split: option.splits sum.splits)
  show ?case
  proof (cases "var \<in> set vs")
    case True
    from Cons.IH [OF r True Cons.prems(3,4)] show ?thesis .
  next
    case False
    with Cons.prems(2) have v: "v = var" by simp
    from fit_loop_keeps [OF r False] have "map_of d' var = Some b"
      by (simp add: update_conv' v)
    moreover have "fit_var k xs = Inr b"
      using c Cons.prems(3,4) v by simp
    ultimately show ?thesis by simp
  qed
qed

lemma fit_loop_total:
  "check_numeric_vars X vs = Inr () \<Longrightarrow> k \<noteq> 0 \<Longrightarrow> \<exists>d'. fit_loop k X vs d = Inr d'"
proof (induction vs arbitrary: d)
  case Nil
  then show ?case by simp
next
  case (Cons v vs)
  from Cons.prems(1) obtain col xs where
    c: "map_of X v = Some col" "col_reals col = Some xs"
    and r: "check_numeric_vars X vs = Inr ()"
    by (auto split: option.splits if_splits)
  obtain b where b: "fit_var k xs = Inr b"
    using Cons.prems(2) by (auto simp: fit_var_def Let_def)
  from Cons.IH [OF r Cons.prems(2)] show ?case
    using c b by simp
qed

lemma spec_sequence_constant:
  "0 < k \<Longrightarrow> spec_sequence c c k = replicate (Suc k) c"
proof -
  assume "0 < k"
  have "map (\<lambda>e. c + (0::real) ^ e) [1..<Suc k] = map (\<lambda>e. c) [1..<Suc k]"
    by (rule map_cong) auto
  also have "\<dots> = replicate k c" by (simp add: map_replicate_const del: upt_Suc)
  finally have m: "map (\<lambda>e. c + (0::real) ^ e) [1..<Suc k] = replicate k c" .
  have "sort (replicate (Suc k) c) = replicate (Suc k) c"
    by (rule sorted_sort_id) (simp add: sorted_replicate del: replicate_Suc)
  then show ?thesis
    unfolding spec_sequence_def Let_def using m by simp
qed


lemma discretiser_fit_lookup:
  assumes "discretiser_fit self vars X = Inr d" "map_of d var = Some bs"
  shows "\<exists>col xs. map_of X var = Some col \<and> col_reals col = Some xs
           \<and> fit_var (bins self) xs = Inr bs"
proof -
  from assms(1) have "fit_loop (bins self) X vars [] = Inr d"
    by (auto simp: discretiser_fit_def base_discretiser_fit_def split: sum.splits if_splits)
  from fit_loop_lookup [OF this assms(2)] show ?thesis by simp
qed

lemma spec_boundaries_shape:
  "0 < k \<Longrightarrow> length (spec_boundaries lo hi k) = k + 1 \<and> hd (spec_boundaries lo hi k) = NegInf
   \<and> last (spec_boundaries lo hi k) = PosInf \<and> sorted_wrt bound_le (spec_boundaries lo hi k)"
proof -
  have "sorted_wrt bound_le (spec_boundaries lo hi k)"
    unfolding spec_boundaries_def
    by (rule bound_le_wrap, rule sorted_middle, rule sorted_spec_sequence)
  moreover assume "0 < k"
  ultimately show ?thesis
    by (simp add: spec_boundaries_def length_spec_sequence)
qed

lemma spec_boundaries_strict:
  assumes "0 < k" "lo \<le> hi" "k \<le> 2 \<or> hi - lo \<notin> {0, 1}"
  shows "sorted_wrt bound_less (spec_boundaries lo hi k)"
proof (cases "k \<le> 2")
  case True
  then have "length (butlast (tl (spec_sequence lo hi k))) \<le> 1"
    by (simp add: length_spec_sequence)
  then show ?thesis unfolding spec_boundaries_def by (rule short_strict)
next
  case False
  with assms have "lo < hi" "hi - lo \<noteq> 1" by auto
  then have "distinct (spec_sequence lo hi k)"
    using assms(1) by (rule distinct_spec_sequence)
  then show ?thesis
    unfolding spec_boundaries_def
    by (intro bound_less_wrap sorted_middle distinct_middle sorted_spec_sequence)
qed

text \<open>
  Claim C1, as the code has it. For every variable fitted with \<open>bins = k > 0\<close> the
  stored boundary list has \<open>k + 1\<close> entries, its first entry is minus infinity, its
  last entry is plus infinity, and the whole list is sorted (non-decreasing). It is
  strictly increasing whenever \<open>k \<le> 2\<close> or the range \<open>max - min\<close> of the column is
  neither 0 nor 1 (in exact arithmetic). For a range of 0 or 1 and \<open>k \<ge> 3\<close> the
  increment is 0 or 1 and the middle entries coincide: see the counterexample below.
\<close>

theorem binner_dict_shape:
  assumes "discretiser_fit self vars X = Inr d" and "0 < bins self"
    and "map_of d var = Some bs"
  shows "length bs = nat (bins self) + 1 \<and> hd bs = NegInf \<and> last bs = PosInf
         \<and> sorted_wrt bound_le bs
         \<and> (\<forall>col xs. map_of X var = Some col \<longrightarrow> col_reals col = Some xs \<longrightarrow>
               (bins self \<le> 2 \<or> col_max xs - col_min xs \<notin> {0, 1}) \<longrightarrow>
               sorted_wrt bound_less bs)"
proof -
  from discretiser_fit_lookup [OF assms(1,3)] obtain col xs where
    c: "map_of X var = Some col" "col_reals col = Some xs" "fit_var (bins self) xs = Inr bs"
    by blast
  have bs: "bs = spec_boundaries (col_min xs) (col_max xs) (nat (bins self))"
    using c(3) fit_var_spec [OF assms(2), of xs] by simp
  have "bins self \<le> 2 \<or> col_max xs - col_min xs \<notin> {0, 1} \<Longrightarrow> sorted_wrt bound_less bs"
    unfolding bs using assms(2) col_min_le_max [of xs]
    by (intro spec_boundaries_strict) auto
  then show ?thesis
    using spec_boundaries_shape [of "nat (bins self)" "col_min xs" "col_max xs"] c assms(2)
    by (auto simp: bs)
qed

lemma fit_var_two: "fit_var 2 [0, 4] = Inr [NegInf, Fin 2, PosInf]"
  by (simp add: fit_var_def col_min_def col_max_def upto_rec1 Let_def powr_half_sqrt)

lemma fit_var_three: "fit_var 3 [0, 1] = Inr [NegInf, Fin 1, Fin 1, PosInf]"
  by (simp add: fit_var_def col_min_def col_max_def upto_rec1 Let_def)

theorem binner_dict_shape_witness:
  "discretiser_fit \<lparr>bins = 2, return_object = False, return_boundaries = False\<rparr>
       [''x''] [(''x'', [Num 0, Num 4])] = Inr [(''x'', [NegInf, Fin 2, PosInf])]
   \<and> length [NegInf, Fin 2, PosInf] = nat 2 + 1
   \<and> sorted_wrt bound_less [NegInf, Fin 2, PosInf]"
proof -
  let ?self = "\<lparr>bins = 2, return_object = False, return_boundaries = False\<rparr>"
  let ?X = "[(''x'', [Num 0, Num 4])]"
  have f: "discretiser_fit ?self [''x''] ?X = Inr [(''x'', [NegInf, Fin 2, PosInf])]"
    by (simp add: discretiser_fit_def base_discretiser_fit_def frame_empty_def fit_var_two)
  have k: "0 < bins ?self" by simp
  have l: "map_of [(''x'', [NegInf, Fin 2, PosInf])] ''x'' = Some [NegInf, Fin 2, PosInf]"
    by simp
  from binner_dict_shape [OF f k l] f show ?thesis by simp
qed

text \<open>
  The column \<open>[0, 1]\<close> with three bins: the increment is \<open>1 ** (1/3) = 1\<close>, the
  boundaries before the override are \<open>[0, 1, 1, 1]\<close>, and the stored list repeats 1.
\<close>

theorem binner_dict_strict_counterexample:
  "discretiser_fit \<lparr>bins = 3, return_object = False, return_boundaries = False\<rparr>
       [''x''] [(''x'', [Num 0, Num 1])] = Inr [(''x'', [NegInf, Fin 1, Fin 1, PosInf])]
   \<and> \<not> sorted_wrt bound_less [NegInf, Fin 1, Fin 1, PosInf]"
  by (simp add: discretiser_fit_def base_discretiser_fit_def frame_empty_def fit_var_three)


lemma discretiser_fit_stores:
  assumes "base_discretiser_fit X vars = Inr X'" and "0 < bins self" and "var \<in> set vars"
    and "map_of X var = Some col" and "col_reals col = Some xs"
  shows "\<exists>d. discretiser_fit self vars X = Inr d
           \<and> map_of d var = Some (spec_boundaries (col_min xs) (col_max xs) (nat (bins self)))"
proof -
  from assms(1) have chk: "check_numeric_vars X vars = Inr ()" and X': "X' = X"
    by (auto simp: base_discretiser_fit_def split: if_splits sum.splits)
  from assms(2) have "bins self \<noteq> 0" by simp
  from fit_loop_total [OF chk this] obtain d where
    d: "fit_loop (bins self) X vars [] = Inr d" by blast
  from fit_loop_stores [OF d assms(3,4,5)] obtain bs where
    "fit_var (bins self) xs = Inr bs" "map_of d var = Some bs" by blast
  then have "map_of d var = Some (spec_boundaries (col_min xs) (col_max xs) (nat (bins self)))"
    using fit_var_spec [OF assms(2), of xs] by simp
  moreover have "discretiser_fit self vars X = Inr d"
    using assms(1) d by (simp add: discretiser_fit_def X')
  ultimately show ?thesis by blast
qed

text \<open>
  Claim C4. For a non-constant numeric column (\<open>min < max\<close>) without missing values
  that upstream validation accepts, and a positive number of bins, \<open>fit\<close> returns and
  stores for the variable exactly the boundaries of the stated algorithm
  (\<open>spec_boundaries\<close>, written from the specification's words).
\<close>

theorem fit_boundaries_algorithm:
  assumes "base_discretiser_fit X vars = Inr X'" and "0 < bins self" and "var \<in> set vars"
    and "map_of X var = Some col" and "col_reals col = Some xs"
    and "col_min xs < col_max xs"
  shows "\<exists>d. discretiser_fit self vars X = Inr d
           \<and> map_of d var = Some (spec_boundaries (col_min xs) (col_max xs) (nat (bins self)))"
  using assms(1-5) by (rule discretiser_fit_stores)

lemma butlast_replicate_Suc: "butlast (replicate (Suc m) c) = replicate m c"
proof -
  have "replicate (Suc m) c = replicate m c @ [c]"
    by (simp add: replicate_append_same)
  then show ?thesis by (simp only: butlast_snoc)
qed

lemma spec_boundaries_constant:
  assumes "0 < k"
  shows "spec_boundaries c c k = NegInf # replicate (k - 1) (Fin c) @ [PosInf]"
proof -
  from assms obtain m where k: "k = Suc m" by (cases k) auto
  have "butlast (tl (replicate (Suc k) c)) = replicate (k - 1) c"
    unfolding k using butlast_replicate_Suc [of m c] by simp
  then show ?thesis
    unfolding spec_boundaries_def spec_sequence_constant [OF assms]
    by (simp only: map_replicate)
qed

lemma replicate_not_strict:
  "2 \<le> n \<Longrightarrow> \<not> sorted_wrt bound_less (replicate n (Fin c))"
proof -
  assume "2 \<le> n"
  then obtain m where "n = Suc (Suc m)" by (metis add_2_eq_Suc le_Suc_ex)
  then show ?thesis by simp
qed

text \<open>
  Claim C10, as the code has it. For a constant column (\<open>min = max = c\<close>) and
  \<open>bins \<ge> 2\<close>, \<open>fit\<close> does not raise: the increment is \<open>0\<close> and the stored list is
  minus infinity, \<open>bins - 1\<close> copies of \<open>c\<close>, plus infinity (all entries are
  proper values, none is NaN). For \<open>bins \<ge> 3\<close> the middle entries are not strictly
  increasing. For \<open>bins = 2\<close> there is a single middle entry, and the stored list is
  strictly increasing: see the counterexample below.
\<close>

theorem constant_column_boundaries:
  assumes "base_discretiser_fit X vars = Inr X'" and "2 \<le> bins self" and "var \<in> set vars"
    and "map_of X var = Some col" and "col_reals col = Some xs"
    and "col_min xs = c" and "col_max xs = c"
  shows "\<exists>d. discretiser_fit self vars X = Inr d
           \<and> map_of d var = Some (NegInf # replicate (nat (bins self) - 1) (Fin c) @ [PosInf])
           \<and> (3 \<le> bins self \<longrightarrow>
                \<not> sorted_wrt bound_less (replicate (nat (bins self) - 1) (Fin c)))"
proof -
  from assms(2) have pos: "0 < bins self" by simp
  from discretiser_fit_stores [OF assms(1) pos assms(3,4,5)] obtain d where
    d: "discretiser_fit self vars X = Inr d"
       "map_of d var = Some (spec_boundaries c c (nat (bins self)))"
    using assms(6,7) by auto
  have "map_of d var = Some (NegInf # replicate (nat (bins self) - 1) (Fin c) @ [PosInf])"
    using d(2) pos by (simp add: spec_boundaries_constant)
  moreover have "3 \<le> bins self \<Longrightarrow>
      \<not> sorted_wrt bound_less (replicate (nat (bins self) - 1) (Fin c))"
    by (rule replicate_not_strict) simp
  ultimately show ?thesis using d(1) by blast
qed

lemma spec_boundaries_example: "spec_boundaries 0 4 2 = [NegInf, Fin 2, PosInf]"
  by (simp add: spec_boundaries_def spec_sequence_def powr_half_sqrt numeral_2_eq_2)

theorem fit_boundaries_algorithm_witness:
  "col_min [0, 4] < col_max [0, 4]
   \<and> (\<exists>d. discretiser_fit \<lparr>bins = 2, return_object = False, return_boundaries = False\<rparr>
             [''x''] [(''x'', [Num 0, Num 4])] = Inr d
          \<and> map_of d ''x'' = Some [NegInf, Fin 2, PosInf])"
proof -
  let ?self = "\<lparr>bins = 2, return_object = False, return_boundaries = False\<rparr>"
  let ?X = "[(''x'', [Num 0, Num 4])]"
  have b: "base_discretiser_fit ?X [''x''] = Inr ?X"
    by (simp add: base_discretiser_fit_def frame_empty_def)
  have k: "0 < bins ?self" by simp
  have v: "''x'' \<in> set [''x'']" by simp
  have c: "map_of ?X ''x'' = Some [Num 0, Num 4]" by simp
  have r: "col_reals [Num 0, Num 4] = Some [0, 4]" by simp
  have m: "col_min [0, 4] < col_max [0, 4]" by (simp add: col_min_def col_max_def)
  have e: "col_min [0, 4] = 0" "col_max [0, 4] = 4" by (simp_all add: col_min_def col_max_def)
  from fit_boundaries_algorithm [OF b k v c r m] m show ?thesis
    by (simp add: e spec_boundaries_example)
qed

theorem constant_column_boundaries_witness:
  "\<exists>d. discretiser_fit \<lparr>bins = 3, return_object = False, return_boundaries = False\<rparr>
             [''x''] [(''x'', [Num 5, Num 5])] = Inr d
          \<and> map_of d ''x'' = Some [NegInf, Fin 5, Fin 5, PosInf]
          \<and> \<not> sorted_wrt bound_less [Fin 5, Fin 5]"
proof -
  let ?self = "\<lparr>bins = 3, return_object = False, return_boundaries = False\<rparr>"
  let ?X = "[(''x'', [Num 5, Num 5])]"
  have b: "base_discretiser_fit ?X [''x''] = Inr ?X"
    by (simp add: base_discretiser_fit_def frame_empty_def)
  have k: "2 \<le> bins ?self" by simp
  have v: "''x'' \<in> set [''x'']" by simp
  have c: "map_of ?X ''x'' = Some [Num 5, Num 5]" by simp
  have r: "col_reals [Num 5, Num 5] = Some [5, 5]" by simp
  have e: "col_min [5, 5] = 5" "col_max [5, 5] = 5" by (simp_all add: col_min_def col_max_def)
  from constant_column_boundaries [OF b k v c r e] show ?thesis
    by (simp add: numeral_3_eq_3 numeral_2_eq_2)
qed

text \<open>
  A constant column with two bins: the single middle entry is trivially strictly
  increasing.
\<close>

theorem constant_column_two_bins_counterexample:
  "discretiser_fit \<lparr>bins = 2, return_object = False, return_boundaries = False\<rparr>
       [''x''] [(''x'', [Num 5, Num 5])] = Inr [(''x'', [NegInf, Fin 5, PosInf])]
   \<and> sorted_wrt bound_less [Fin 5]"
  by (simp add: discretiser_fit_def base_discretiser_fit_def frame_empty_def fit_var_def
      col_min_def col_max_def upto_rec1 Let_def)

section \<open>Properties of the encoder\<close>


text \<open>
  Claim C9. The constructors reject a non-integer \<open>bins\<close>, a truthy non-integer
  \<open>top_categories\<close> and an unknown \<open>handle_missing\<close>, and accept every valid argument
  (the two lemmas after the theorem). But the guard \<open>top_categories and not
  isinstance(top_categories, int)\<close> lets every falsy value through, not only \<open>None\<close>:
  the non-integer \<open>top_categories = 0.0\<close> is accepted at construction.
\<close>

theorem init_accepts_float_zero:
  "StringSimilarityEncoder_init (PFloat 0) (PStr ''impute'') False
     = Inr \<lparr>top_categories = PFloat 0, handle_missing = PStr ''impute'', ignore_format = False\<rparr>"
  by (simp add: StringSimilarityEncoder_init_def)

lemma init_accepts_valid:
  "IncreasingWidthDiscretiser_init (PInt n) ro rb
     = Inr \<lparr>bins = n, return_object = ro, return_boundaries = rb\<rparr>"
  "tc = PNone \<or> isinstance_int tc \<Longrightarrow>
   hm \<in> {PStr ''error'', PStr ''impute'', PStr ''ignore''} \<Longrightarrow>
     StringSimilarityEncoder_init tc hm igf
       = Inr \<lparr>top_categories = tc, handle_missing = hm, ignore_format = igf\<rparr>"
  by (auto simp: IncreasingWidthDiscretiser_init_def StringSimilarityEncoder_init_def)

lemma init_rejections:
  "\<not> isinstance_int b \<Longrightarrow> IncreasingWidthDiscretiser_init b ro rb = Inl ValueError"
  "truthy tc \<Longrightarrow> \<not> isinstance_int tc \<Longrightarrow> StringSimilarityEncoder_init tc hm igf = Inl ValueError"
  "hm \<notin> {PStr ''error'', PStr ''impute'', PStr ''ignore''} \<Longrightarrow>
     StringSimilarityEncoder_init tc hm igf = Inl ValueError"
  by (cases b; simp add: IncreasingWidthDiscretiser_init_def)
     (simp_all add: StringSimilarityEncoder_init_def)

lemma fold_count_get:
  "dict_get (fold (\<lambda>elt m. m(elt \<mapsto> dict_get m elt 0 + 1)) b m) c (0::int)
     = dict_get m c 0 + int (count_list b c)"
  by (induction b arbitrary: m) (auto simp: dict_get_def)

lemma fullbcount_get: "dict_get (fullbcount b) c 0 = int (count_list b c)"
  unfolding fullbcount_def by (simp add: fold_count_get) (simp add: dict_get_def)

lemma quick_loop_all_match:
  assumes "\<And>c. int (count_list ys c) \<le> (case avail c of Some n \<Rightarrow> n | None \<Rightarrow> dict_get fb c 0)"
  shows "quick_loop fb ys avail m = m + int (length ys)"
  using assms
proof (induction ys arbitrary: avail m)
  case Nil
  then show ?case by simp
next
  case (Cons elt a)
  let ?numb = "case avail elt of Some n \<Rightarrow> n | None \<Rightarrow> dict_get fb elt 0"
  from Cons.prems [of elt] have pos: "0 < ?numb" by simp
  have "quick_loop fb a (avail(elt \<mapsto> ?numb - 1)) (m + 1) = (m + 1) + int (length a)"
  proof (rule Cons.IH)
    fix c
    show "int (count_list a c)
        \<le> (case (avail(elt \<mapsto> ?numb - 1)) c of Some n \<Rightarrow> n | None \<Rightarrow> dict_get fb c 0)"
      using Cons.prems [of c] by (cases "c = elt") auto
  qed
  then show ?case using pos by (simp add: Let_def)
qed

lemma quick_ratio_self: "quick_ratio a a = 1"
proof -
  have "quick_loop (fullbcount a) a Map.empty 0 = 0 + int (length a)"
    by (rule quick_loop_all_match) (simp add: fullbcount_get)
  then show ?thesis
    by (simp add: quick_ratio_def calculate_ratio_def)
qed


lemma set_unique_fold:
  "set (fold (\<lambda>x acc. if x \<in> set acc then acc else acc @ [x]) xs acc) = set acc \<union> set xs"
  by (induction xs arbitrary: acc) auto

lemma set_unique: "set (unique xs) = set xs"
  by (simp add: unique_def set_unique_fold)

lemma build_dict_eq:
  "build_dict sf vocab xs = Inr d \<Longrightarrow>
     d = map (\<lambda>x. (x, map (\<lambda>c. Num (gpm_fast sf x c)) vocab)) xs"
  by (induction xs arbitrary: d) (auto simp: gpm_fast_vec_def split: sum.splits if_splits)

lemma build_dict_total:
  "vocab \<noteq> [] \<or> xs = [] \<Longrightarrow>
     build_dict sf vocab xs = Inr (map (\<lambda>x. (x, map (\<lambda>c. Num (gpm_fast sf x c)) vocab)) xs)"
  by (induction xs) (auto simp: gpm_fast_vec_def)

lemma map_of_graph: "x \<in> set xs \<Longrightarrow> map_of (map (\<lambda>x. (x, f x)) xs) x = Some (f x)"
  by (induction xs) auto

lemma series_map_rows:
  assumes "d0 = map (\<lambda>x. (x, map (\<lambda>c. Num (gpm_fast sf x c)) vocab)) (unique (dropna col))"
  shows "series_map (AList.update Missing (replicate (length vocab) Missing) d0) col
           = map (score_row sf vocab) col"
proof -
  have "(case map_of (AList.update Missing (replicate (length vocab) Missing) d0) c of
           None \<Rightarrow> [Missing] | Some v \<Rightarrow> v) = score_row sf vocab c"
    if "c \<in> set col" for c
  proof (cases "c = Missing")
    case True
    then show ?thesis by (simp add: update_conv' score_row_def)
  next
    case False
    with that have "c \<in> set (unique (dropna col))"
      by (simp add: set_unique dropna_def)
    then have "map_of d0 c = Some (map (\<lambda>v. Num (gpm_fast sf c v)) vocab)"
      unfolding assms by (rule map_of_graph)
    with False show ?thesis by (simp add: update_conv' score_row_def)
  qed
  then show ?thesis by (simp add: series_map_def)
qed

lemma length_score_row: "length (score_row sf vocab c) = length vocab"
  by (simp add: score_row_def)

lemma ignore_override:
  "map2 (\<lambda>c row. if c = Missing then replicate (length row) Missing else row)
      col (map (score_row sf vocab) col) = map (score_row sf vocab) col"
  by (induction col) (auto simp: score_row_def)

lemma encode_var_rows:
  assumes "encode_var sf hm vocab col = Inr rows"
  shows "rows = map (score_row sf vocab) col"
proof -
  from assms obtain d0 where
    d0: "build_dict sf vocab (unique (dropna col)) = Inr d0"
    by (auto simp: encode_var_def Let_def split: sum.splits)
  from build_dict_eq [OF d0] have
    m: "series_map (AList.update Missing (replicate (length vocab) Missing) d0) col
          = map (score_row sf vocab) col"
    by (rule series_map_rows)
  from assms d0 m obtain encoded where
    e: "vstack (map (score_row sf vocab) col) = Inr encoded"
    and r: "rows = (if hm = PStr ''ignore''
              then map2 (\<lambda>c row. if c = Missing then replicate (length row) Missing else row)
                     col encoded
              else encoded)"
    by (auto simp: encode_var_def Let_def split: sum.splits)
  from e have "encoded = map (score_row sf vocab) col"
    by (auto simp: vstack_def split: if_splits)
  with r show ?thesis by (simp add: ignore_override)
qed

lemma encode_var_total:
  assumes "col \<noteq> []" and "vocab \<noteq> [] \<or> set col \<subseteq> {Missing}"
  shows "encode_var sf hm vocab col = Inr (map (score_row sf vocab) col)"
proof -
  have "unique (dropna col) = []" if "set col \<subseteq> {Missing}"
  proof -
    from that have "dropna col = []" by (auto simp: dropna_def filter_empty_conv)
    then show ?thesis by (simp add: unique_def)
  qed
  with assms(2) have "vocab \<noteq> [] \<or> unique (dropna col) = []" by blast
  from build_dict_total [OF this] have
    d0: "build_dict sf vocab (unique (dropna col))
           = Inr (map (\<lambda>x. (x, map (\<lambda>c. Num (gpm_fast sf x c)) vocab)) (unique (dropna col)))" .
  have m: "series_map (AList.update Missing (replicate (length vocab) Missing)
              (map (\<lambda>x. (x, map (\<lambda>c. Num (gpm_fast sf x c)) vocab)) (unique (dropna col)))) col
          = map (score_row sf vocab) col"
    by (rule series_map_rows) simp
  have v: "vstack (map (score_row sf vocab) col) = Inr (map (score_row sf vocab) col)"
    using assms(1) by (cases col) (auto simp: vstack_def length_score_row)
  show ?thesis
    unfolding encode_var_def Let_def d0 by (simp add: m v ignore_override)
qed


text \<open>
  Claim C7. Under the policy \<open>ignore\<close>, whenever the similarity block of a variable is
  produced it has one row per row of the column; the row of a missing value is missing
  in every column of the block, and the row of a present value is the vector of its
  similarities to the entries of the vocabulary. The block is produced for every
  non-empty column and non-empty vocabulary.
\<close>

theorem ignore_policy_rows:
  "(\<forall>rows. encode_var sf (PStr ''ignore'') vocab col = Inr rows \<longrightarrow>
      length rows = length col \<and>
      (\<forall>i < length col.
          (col ! i = Missing \<longrightarrow> rows ! i = replicate (length vocab) Missing) \<and>
          (col ! i \<noteq> Missing \<longrightarrow> rows ! i = map (\<lambda>v. Num (gpm_fast sf (col ! i) v)) vocab)))
   \<and> (col \<noteq> [] \<longrightarrow> vocab \<noteq> [] \<longrightarrow> (\<exists>rows. encode_var sf (PStr ''ignore'') vocab col = Inr rows))"
proof (intro conjI allI impI)
  fix rows assume "encode_var sf (PStr ''ignore'') vocab col = Inr rows"
  then have r: "rows = map (score_row sf vocab) col" by (rule encode_var_rows)
  show "length rows = length col" by (simp add: r)
  fix i assume i: "i < length col"
  show "rows ! i = replicate (length vocab) Missing" if "col ! i = Missing"
    using i that by (simp add: r score_row_def)
  show "rows ! i = map (\<lambda>v. Num (gpm_fast sf (col ! i) v)) vocab" if "col ! i \<noteq> Missing"
    using i that by (simp add: r score_row_def)
next
  assume "col \<noteq> []" "vocab \<noteq> []"
  then show "\<exists>rows. encode_var sf (PStr ''ignore'') vocab col = Inr rows"
    using encode_var_total [of col vocab sf "PStr ''ignore''"] by simp
qed

theorem ignore_policy_rows_witness:
  "\<exists>rows. encode_var (\<lambda>r. []) (PStr ''ignore'') [Str ''A''] [Str ''A'', Missing] = Inr rows
      \<and> length rows = 2 \<and> rows ! 0 = [Num 1] \<and> rows ! 1 = [Missing]"
proof -
  let ?col = "[Str ''A'', Missing]"
  note t = ignore_policy_rows [of "\<lambda>r. []" "[Str ''A'']" ?col]
  from t obtain rows where
    e: "encode_var (\<lambda>r. []) (PStr ''ignore'') [Str ''A''] ?col = Inr rows" by auto
  with t have l: "length rows = length ?col"
    and a: "\<forall>i < length ?col.
          (?col ! i = Missing \<longrightarrow> rows ! i = replicate (length [Str ''A'']) Missing) \<and>
          (?col ! i \<noteq> Missing \<longrightarrow> rows ! i = map (\<lambda>v. Num (gpm_fast (\<lambda>r. []) (?col ! i) v)) [Str ''A''])"
    by blast+
  from a have "rows ! 0 = [Num 1]" by (simp add: gpm_fast_def quick_ratio_self)
  moreover from a have "rows ! 1 = [Missing]" by simp
  ultimately show ?thesis using e l by simp
qed

text \<open>
  Claim C8. The similarity of a value to itself is exactly 1, so in the similarity
  block of a variable the row of a (present) value \<open>v\<close> holds the score 1 in the column
  of the vocabulary entry \<open>v\<close>.
\<close>

theorem similarity_self_match:
  "gpm_fast sf v v = 1 \<and>
   (\<forall>rows i j. encode_var sf hm vocab col = Inr rows \<longrightarrow> i < length col \<longrightarrow> j < length vocab \<longrightarrow>
       col ! i = v \<longrightarrow> vocab ! j = v \<longrightarrow> v \<noteq> Missing \<longrightarrow> rows ! i ! j = Num 1)"
proof (intro conjI allI impI)
  show g: "gpm_fast sf v v = 1" by (simp add: gpm_fast_def quick_ratio_self)
  fix rows i j
  assume "encode_var sf hm vocab col = Inr rows" and i: "i < length col" and j: "j < length vocab"
    and v: "col ! i = v" "vocab ! j = v" "v \<noteq> Missing"
  then have "rows = map (score_row sf vocab) col" by (simp add: encode_var_rows)
  then have "rows ! i ! j = Num (gpm_fast sf (col ! i) (vocab ! j))"
    using i j v by (simp add: score_row_def)
  then show "rows ! i ! j = Num 1" using v g by simp
qed

lemma quick_ratio_A_B: "quick_ratio ''A'' ''B'' = 0" "quick_ratio ''B'' ''A'' = 0"
  by (simp_all add: quick_ratio_def fullbcount_def calculate_ratio_def dict_get_def Let_def)

theorem similarity_self_match_witness:
  "gpm_fast (\<lambda>r. []) (Str ''B'') (Str ''B'') = 1
   \<and> encode_var (\<lambda>r. []) (PStr ''impute'') [Str ''A'', Str ''B''] [Str ''B'', Str ''A'']
        = Inr [[Num 0, Num 1], [Num 1, Num 0]]
   \<and> [[Num 0, Num 1], [Num 1, Num 0]] ! 0 ! 1 = Num 1"
proof -
  have e: "encode_var (\<lambda>r. []) (PStr ''impute'') [Str ''A'', Str ''B''] [Str ''B'', Str ''A'']
        = Inr [[Num 0, Num 1], [Num 1, Num 0]]"
    by (simp add: encode_var_total score_row_def gpm_fast_def quick_ratio_self quick_ratio_A_B)
  from similarity_self_match [of "\<lambda>r. []" "Str ''B''" "PStr ''impute''" "[Str ''A'', Str ''B'']"
      "[Str ''B'', Str ''A'']"] e
  show ?thesis by simp
qed


lemma unique_fold_acc:
  "fold (\<lambda>x acc. if x \<in> set acc then acc else acc @ [x]) xs acc
     = acc @ filter (\<lambda>v. v \<notin> set acc) (unique xs)"
proof (induction xs arbitrary: acc)
  case Nil
  then show ?case by (simp add: unique_def)
next
  case (Cons x xs)
  have u: "unique (x # xs) = x # filter (\<lambda>v. v \<noteq> x) (unique xs)"
    using Cons.IH [of "[x]"] by (simp add: unique_def)
  show ?case
  proof (cases "x \<in> set acc")
    case True
    have "filter (\<lambda>v. v \<notin> set acc) (unique (x # xs)) = filter (\<lambda>v. v \<notin> set acc) (unique xs)"
      using True unfolding u by (auto intro: filter_cong)
    then show ?thesis using True Cons.IH [of acc] by simp
  next
    case False
    have "filter (\<lambda>v. v \<notin> set (acc @ [x])) (unique xs)
            = filter (\<lambda>v. v \<notin> set acc) (filter (\<lambda>v. v \<noteq> x) (unique xs))"
      by (auto intro: filter_cong)
    then show ?thesis using False Cons.IH [of "acc @ [x]"] by (simp add: u)
  qed
qed

lemma unique_Cons: "unique (x # xs) = x # filter (\<lambda>v. v \<noteq> x) (unique xs)"
  using unique_fold_acc [of xs "[x]"] by (simp add: unique_def)

lemma unique_Nil: "unique [] = []"
  by (simp add: unique_def)

lemma distinct_unique: "distinct (unique xs)"
  by (induction xs) (auto simp: unique_Cons unique_Nil)

lemma unique_snoc:
  "unique (ys @ [y]) = (if y \<in> set ys then unique ys else unique ys @ [y])"
  using set_unique [of ys] by (simp add: unique_def)

lemma first_index_Cons:
  "first_index (x # xs) v = (if v = x then 0 else Suc (first_index xs v))"
  by (auto simp: first_index_def)

lemma unique_first_seen:
  "sorted_wrt (\<lambda>a b. first_index ys a < first_index ys b) (unique ys)"
proof (induction ys)
  case Nil
  then show ?case by (simp add: unique_Nil)
next
  case (Cons x xs)
  have "sorted_wrt (\<lambda>a b. first_index xs a < first_index xs b) (filter (\<lambda>v. v \<noteq> x) (unique xs))"
    using Cons.IH by (rule sorted_wrt_filter)
  then have "sorted_wrt (\<lambda>a b. first_index (x # xs) a < first_index (x # xs) b)
      (filter (\<lambda>v. v \<noteq> x) (unique xs))"
    by (rule sorted_wrt_mono_rel [rotated]) (auto simp: first_index_Cons)
  then show ?case by (auto simp: unique_Cons first_index_Cons)
qed

lemma count_add_graph:
  "distinct us \<Longrightarrow>
   count_add y (map (\<lambda>v. (v, f v)) us)
     = (if y \<in> set us then map (\<lambda>v. (v, if v = y then Suc (f v) else f v)) us
        else map (\<lambda>v. (v, f v)) us @ [(y, 1)])"
  by (induction us) auto

lemma fold_count_add:
  "fold count_add ys [] = map (\<lambda>v. (v, count_list ys v)) (unique ys)"
proof (induction ys rule: rev_induct)
  case Nil
  then show ?case by (simp add: unique_Nil)
next
  case (snoc y ys)
  have "fold count_add (ys @ [y]) [] = count_add y (map (\<lambda>v. (v, count_list ys v)) (unique ys))"
    using snoc.IH by simp
  also have "\<dots> = map (\<lambda>v. (v, count_list (ys @ [y]) v)) (unique (ys @ [y]))"
    using count_add_graph [OF distinct_unique, of y "count_list ys" ys]
    by (auto simp: unique_snoc set_unique count_list_0_iff)
  finally show ?case .
qed


lemma insort_key_fst:
  "\<forall>p \<in> set ps. snd p = f (fst p) \<Longrightarrow> snd q = f (fst q) \<Longrightarrow>
   map fst (insort_key (\<lambda>p. k (snd p)) q ps) = insort_key (\<lambda>v. k (f v)) (fst q) (map fst ps)"
  by (induction ps) auto

lemma sort_key_fst:
  "\<forall>p \<in> set ps. snd p = f (fst p) \<Longrightarrow>
   map fst (sort_key (\<lambda>p. k (snd p)) ps) = sort_key (\<lambda>v. k (f v)) (map fst ps)"
proof (induction ps)
  case Nil
  then show ?case by simp
next
  case (Cons q ps)
  have "map fst (insort_key (\<lambda>p. k (snd p)) q (sort_key (\<lambda>p. k (snd p)) ps))
          = insort_key (\<lambda>v. k (f v)) (fst q) (map fst (sort_key (\<lambda>p. k (snd p)) ps))"
    using Cons.prems by (intro insort_key_fst) auto
  then show ?case using Cons by simp
qed

lemma value_counts_keys:
  "map fst (value_counts col)
     = sort_key (\<lambda>v. - int (count_list (dropna col) v)) (unique (dropna col))"
proof -
  let ?ys = "dropna col"
  let ?ps = "map (\<lambda>v. (v, count_list ?ys v)) (unique ?ys)"
  have "map fst (sort_key (\<lambda>p. - int (snd p)) ?ps)
          = sort_key (\<lambda>v. - int (count_list ?ys v)) (map fst ?ps)"
    by (rule sort_key_fst) auto
  then show ?thesis
    by (simp add: value_counts_def fold_count_add comp_def)
qed

lemma lexicographic_from_stable:
  fixes key :: "'a \<Rightarrow> int"
  assumes "sorted (map key xs)" and "\<And>k. sorted_wrt R (filter (\<lambda>x. key x = k) xs)"
  shows "sorted_wrt (\<lambda>a b. key a < key b \<or> (key a = key b \<and> R a b)) xs"
  using assms
proof (induction xs)
  case Nil
  then show ?case by simp
next
  case (Cons x xs)
  have tl: "sorted_wrt R (filter (\<lambda>x. key x = k) xs)" for k
    using Cons.prems(2) [of k] by (auto split: if_splits)
  have "key x < key y \<or> (key x = key y \<and> R x y)" if "y \<in> set xs" for y
  proof (cases "key x = key y")
    case True
    then show ?thesis using Cons.prems(2) [of "key x"] that by auto
  next
    case False
    then show ?thesis using Cons.prems(1) that by auto
  qed
  moreover have "sorted_wrt (\<lambda>a b. key a < key b \<or> (key a = key b \<and> R a b)) xs"
    using Cons.prems(1) tl by (intro Cons.IH) auto
  ultimately show ?case by simp
qed

lemma ranking_of_sorted_unique:
  "frequency_ranking ys (sort_key (\<lambda>v. - int (count_list ys v)) (unique ys))"
proof -
  let ?key = "\<lambda>v. - int (count_list ys v)"
  let ?r = "sort_key ?key (unique ys)"
  have "sorted_wrt (\<lambda>a b. first_index ys a < first_index ys b) (filter (\<lambda>x. ?key x = k) ?r)" for k
    unfolding sort_key_stable by (rule sorted_wrt_filter) (rule unique_first_seen)
  then have "sorted_wrt (\<lambda>a b. ?key a < ?key b
        \<or> (?key a = ?key b \<and> first_index ys a < first_index ys b)) ?r"
    by (intro lexicographic_from_stable sorted_sort_key)
  then have "sorted_wrt (ranks_before ys) ?r"
    by (rule sorted_wrt_mono_rel [rotated]) (auto simp: ranks_before_def)
  then show ?thesis
    by (simp add: frequency_ranking_def distinct_unique set_unique)
qed

lemma learn_categories_ranking:
  assumes "learn_categories tc col = Inr vocab"
  shows "\<exists>r. frequency_ranking (dropna col) r \<and> (tc = PNone \<longrightarrow> vocab = r)
           \<and> (\<forall>k. tc = PInt k \<longrightarrow> 0 \<le> k \<longrightarrow> vocab = take (nat k) r)"
proof -
  let ?r = "map fst (value_counts col)"
  have "frequency_ranking (dropna col) ?r"
    unfolding value_counts_keys by (rule ranking_of_sorted_unique)
  moreover have "vocab = ?r" if "tc = PNone"
    using assms that by (simp add: learn_categories_def)
  moreover have "vocab = take (nat k) ?r" if "tc = PInt k" "0 \<le> k" for k
    using assms that by (auto simp: learn_categories_def take_map)
  ultimately show ?thesis by blast
qed


lemma vocab_loop_lookup:
  "vocab_loop f X vs d = Inr d' \<Longrightarrow> map_of d' var = Some voc \<Longrightarrow>
     map_of d var = Some voc \<or> (\<exists>col. map_of X var = Some col \<and> f col = Inr voc)"
proof (induction vs arbitrary: d)
  case Nil
  then show ?case by simp
next
  case (Cons v vs)
  from Cons.prems(1) obtain col b where
    c: "map_of X v = Some col" "f col = Inr b"
    and r: "vocab_loop f X vs (AList.update v b d) = Inr d'"
    by (auto split: option.splits sum.splits)
  from Cons.IH [OF r Cons.prems(2)] show ?case
    using c by (auto simp: update_conv' split: if_splits)
qed

lemma vocab_loop_columns:
  "vocab_loop f X vs d = Inr d' \<Longrightarrow> set vs \<subseteq> set (map fst X)"
proof (induction vs arbitrary: d)
  case Nil
  then show ?case by simp
next
  case (Cons v vs)
  from Cons.prems obtain col b where
    c: "map_of X v = Some col"
    and r: "vocab_loop f X vs (AList.update v b d) = Inr d'"
    by (auto split: option.splits sum.splits)
  from c have "v \<in> set (map fst X)" by (auto dest: map_of_SomeD intro: rev_image_eqI)
  with Cons.IH [OF r] show ?case by simp
qed

lemma encoder_fit_cases:
  assumes "encoder_fit self vars X = Inr st"
  obtains f where
    "vocab_loop f X vars [] = Inr (encoder_dict st)"
    "\<And>col. f col = learn_categories (top_categories self)
         (if handle_missing self = PStr ''impute'' then fillna (Str []) col else col)"
    "variables st = vars" "feature_names_in st = map fst X"
    "handle_missing st = handle_missing self" "top_categories st = top_categories self"
    "\<not> frame_empty X"
    "handle_missing self = PStr ''error'' \<Longrightarrow> check_contains_na X vars = Inr ()"
proof -
  from assms have ne: "\<not> frame_empty X"
    by (auto simp: encoder_fit_def check_X_def split: if_splits)
  then have cx: "check_X X = Inr X" by (simp add: check_X_def)
  consider (err) "handle_missing self = PStr ''error''"
    | (imp) "handle_missing self = PStr ''impute''"
    | (ign) "handle_missing self = PStr ''ignore''"
    | (oth) "handle_missing self \<notin> {PStr ''error'', PStr ''impute'', PStr ''ignore''}"
    by auto
  then show thesis
  proof cases
    case err
    with assms cx show ?thesis
      by (intro that [of "learn_categories (top_categories self)"])
         (auto simp: encoder_fit_def check_encoding_dictionary_def ne
               split: sum.splits if_splits)
  next
    case imp
    with assms cx show ?thesis
      by (intro that [of "\<lambda>col. learn_categories (top_categories self) (fillna (Str []) col)"])
         (auto simp: encoder_fit_def check_encoding_dictionary_def ne
               split: sum.splits if_splits)
  next
    case ign
    with assms cx show ?thesis
      by (intro that [of "learn_categories (top_categories self)"])
         (auto simp: encoder_fit_def check_encoding_dictionary_def ne
               split: sum.splits if_splits)
  next
    case oth
    with assms cx show ?thesis
      by (auto simp: encoder_fit_def check_encoding_dictionary_def)
  qed
qed

lemma encoder_fit_lookup:
  assumes "encoder_fit self vars X = Inr st" and "map_of (encoder_dict st) var = Some vocab"
  shows "\<exists>col. map_of X var = Some col
           \<and> learn_categories (top_categories self)
               (if handle_missing self = PStr ''impute'' then fillna (Str []) col else col)
              = Inr vocab"
  using assms(1)
proof (rule encoder_fit_cases)
  fix f
  assume l: "vocab_loop f X vars [] = Inr (encoder_dict st)"
    and f: "\<And>col. f col = learn_categories (top_categories self)
         (if handle_missing self = PStr ''impute'' then fillna (Str []) col else col)"
  from vocab_loop_lookup [OF l assms(2)] show ?thesis by (simp add: f)
qed


text \<open>
  Claim C2. For every variable fitted, the vocabulary is the frequency ranking of the
  column's values after the normalisation of the missing-value policy (distinct values,
  descending count, first-seen order among equal counts), whole when \<open>top_categories\<close>
  is \<open>None\<close> and cut to its first \<open>k\<close> entries when \<open>top_categories\<close> is an integer
  \<open>k \<ge> 0\<close>.
\<close>

theorem vocabulary_frequency_order:
  assumes "encoder_fit self vars X = Inr st" and "map_of (encoder_dict st) var = Some vocab"
  shows "\<exists>col r. map_of X var = Some col
           \<and> frequency_ranking (normalised (handle_missing self) col) r
           \<and> (top_categories self = PNone \<longrightarrow> vocab = r)
           \<and> (\<forall>k. top_categories self = PInt k \<longrightarrow> 0 \<le> k \<longrightarrow> vocab = take (nat k) r)"
proof -
  from encoder_fit_lookup [OF assms] obtain col where
    c: "map_of X var = Some col"
    and l: "learn_categories (top_categories self)
               (if handle_missing self = PStr ''impute'' then fillna (Str []) col else col)
              = Inr vocab"
    by blast
  from learn_categories_ranking [OF l] c show ?thesis
    unfolding normalised_def by blast
qed

text \<open>
  Claim C5. For every variable fitted, the vocabulary has no duplicates; its length is
  \<open>min(top_categories, n_unique)\<close> when \<open>top_categories\<close> is a positive integer and
  \<open>n_unique\<close> when it is \<open>None\<close>, where \<open>n_unique\<close> is the number of distinct values of
  the column after the normalisation of the missing-value policy.
\<close>

theorem vocabulary_size:
  assumes "encoder_fit self vars X = Inr st" and "map_of (encoder_dict st) var = Some vocab"
  shows "distinct vocab
         \<and> (\<exists>col. map_of X var = Some col
              \<and> (\<forall>k. top_categories self = PInt k \<longrightarrow> 0 < k \<longrightarrow>
                    length vocab = min (nat k) (card (set (normalised (handle_missing self) col))))
              \<and> (top_categories self = PNone \<longrightarrow>
                    length vocab = card (set (normalised (handle_missing self) col))))"
proof -
  from encoder_fit_lookup [OF assms] obtain col where
    c: "map_of X var = Some col"
    and l: "learn_categories (top_categories self)
               (if handle_missing self = PStr ''impute'' then fillna (Str []) col else col)
              = Inr vocab"
    by blast
  let ?ys = "normalised (handle_missing self) col"
  from learn_categories_ranking [OF l] obtain r where
    r: "frequency_ranking ?ys r"
    and n: "top_categories self = PNone \<longrightarrow> vocab = r"
    and k: "\<forall>k. top_categories self = PInt k \<longrightarrow> 0 \<le> k \<longrightarrow> vocab = take (nat k) r"
    unfolding normalised_def by blast
  from r have d: "distinct r" and len: "length r = card (set ?ys)"
    by (auto simp: frequency_ranking_def dest: distinct_card)
  have "distinct vocab"
  proof (cases "top_categories self")
    case PNone
    with n d show ?thesis by simp
  next
    case (PInt i)
    from l have "vocab = map fst (if 0 \<le> i then take (nat i) (value_counts
        (if handle_missing self = PStr ''impute'' then fillna (Str []) col else col))
        else take (length (value_counts
        (if handle_missing self = PStr ''impute'' then fillna (Str []) col else col)) - nat (- i))
        (value_counts
        (if handle_missing self = PStr ''impute'' then fillna (Str []) col else col)))"
      by (simp add: learn_categories_def PInt)
    then have "\<exists>m. vocab = take m (map fst (value_counts
        (if handle_missing self = PStr ''impute'' then fillna (Str []) col else col)))"
      by (auto simp: take_map)
    then show ?thesis
      by (auto simp: value_counts_keys distinct_unique)
  next
    case (PFloat x)
    with l show ?thesis by (simp add: learn_categories_def)
  next
    case (PStr x)
    with l show ?thesis by (simp add: learn_categories_def)
  qed
  moreover have "length vocab = min (nat i) (card (set ?ys))" if "top_categories self = PInt i" "0 < i" for i
    using k that len by (simp add: min.commute)
  moreover have "length vocab = card (set ?ys)" if "top_categories self = PNone"
    using n that len by simp
  ultimately show ?thesis using c by blast
qed

text \<open>
  Claim C6. Under the policy \<open>error\<close>, when a selected column of the table holds a
  missing entry, \<open>fit\<close> on that table raises the data-validation error (a
  \<open>ValueError\<close>), and so does \<open>transform\<close> on that table after a \<open>fit\<close> that succeeded
  on any other table; no result is produced.
\<close>

theorem error_policy_rejects_missing:
  assumes "handle_missing self = PStr ''error''" and "v \<in> set vars"
    and "map_of X v = Some col" and "Missing \<in> set col"
  shows "(set vars \<subseteq> set (map fst X) \<longrightarrow> encoder_fit self vars X = Inl ValueError)
       \<and> (\<forall>X0 st. encoder_fit self vars X0 = Inr st \<longrightarrow> encoder_transform sf st X = Inl ValueError)"
proof (intro conjI allI impI)
  have na: "check_contains_na X vars = Inl ValueError" if "set vars \<subseteq> set (map fst X)"
  proof -
    from that have "\<not> (\<exists>v \<in> set vars. map_of X v = None)"
      by (auto simp: map_of_eq_None_iff)
    moreover have "\<exists>v \<in> set vars. (case map_of X v of None \<Rightarrow> False | Some col \<Rightarrow> Missing \<in> set col)"
      using assms(2,3,4) by (intro bexI [of _ v]) auto
    ultimately show ?thesis by (simp add: check_contains_na_def)
  qed
  show "encoder_fit self vars X = Inl ValueError" if "set vars \<subseteq> set (map fst X)"
    using na [OF that] assms(1) by (simp add: encoder_fit_def check_X_def)
  fix X0 st
  assume fit: "encoder_fit self vars X0 = Inr st"
  from fit show "encoder_transform sf st X = Inl ValueError"
  proof (rule encoder_fit_cases)
    fix f
    assume l: "vocab_loop f X0 vars [] = Inr (encoder_dict st)"
      and st: "variables st = vars" "feature_names_in st = map fst X0"
        "handle_missing st = handle_missing self"
    from vocab_loop_columns [OF l] have sub: "set vars \<subseteq> set (feature_names_in st)"
      by (simp add: st)
    show ?thesis
    proof (cases "check_transform_input_and_state st X")
      case (Inl e)
      then have "e = ValueError"
        by (auto simp: check_transform_input_and_state_def check_X_def split: if_splits)
      with Inl show ?thesis by (simp add: encoder_transform_def)
    next
      case (Inr X')
      then have X': "X' = X" and "map fst X = feature_names_in st"
        by (auto simp: check_transform_input_and_state_def check_X_def split: if_splits)
      with sub have "set vars \<subseteq> set (map fst X)" by simp
      from na [OF this] Inr show ?thesis
        by (simp add: encoder_transform_def X' st assms(1))
    qed
  qed
qed


lemma fit_example:
  "encoder_fit \<lparr>top_categories = PInt 2, handle_missing = PStr ''ignore'', ignore_format = False\<rparr>
       [''v''] [(''v'', [Str ''b'', Str ''a'', Missing, Str ''a'', Str ''c''])]
     = Inr \<lparr>top_categories = PInt 2, handle_missing = PStr ''ignore'', ignore_format = False,
            variables = [''v''], feature_names_in = [''v''], n_features_in = 1,
            encoder_dict = [(''v'', [Str ''a'', Str ''b''])]\<rparr>"
  by (simp add: encoder_fit_def check_X_def frame_empty_def learn_categories_def
      value_counts_def dropna_def check_encoding_dictionary_def numeral_2_eq_2)

theorem vocabulary_frequency_order_witness:
  "map_of (encoder_dict
       \<lparr>top_categories = PInt 2, handle_missing = PStr ''ignore'', ignore_format = False,
         variables = [''v''], feature_names_in = [''v''], n_features_in = 1,
         encoder_dict = [(''v'', [Str ''a'', Str ''b''])]\<rparr>) ''v'' = Some [Str ''a'', Str ''b'']
   \<and> (\<exists>r. frequency_ranking
          (normalised (PStr ''ignore'') [Str ''b'', Str ''a'', Missing, Str ''a'', Str ''c'']) r
      \<and> [Str ''a'', Str ''b''] = take 2 r)"
proof -
  let ?self = "\<lparr>top_categories = PInt 2, handle_missing = PStr ''ignore'', ignore_format = False\<rparr>"
  let ?col = "[Str ''b'', Str ''a'', Missing, Str ''a'', Str ''c'']"
  let ?st = "\<lparr>top_categories = PInt 2, handle_missing = PStr ''ignore'', ignore_format = False,
            variables = [''v''], feature_names_in = [''v''], n_features_in = 1,
            encoder_dict = [(''v'', [Str ''a'', Str ''b''])]\<rparr>"
  have l: "map_of (encoder_dict ?st) ''v'' = Some [Str ''a'', Str ''b'']" by simp
  from vocabulary_frequency_order [OF fit_example l] obtain col r where
    "map_of [(''v'', ?col)] ''v'' = Some col"
    "frequency_ranking (normalised (handle_missing ?self) col) r"
    "\<forall>k. top_categories ?self = PInt k \<longrightarrow> 0 \<le> k \<longrightarrow> [Str ''a'', Str ''b''] = take (nat k) r"
    by blast
  then have "frequency_ranking (normalised (PStr ''ignore'') ?col) r"
    and "[Str ''a'', Str ''b''] = take 2 r"
    by (auto simp: numeral_2_eq_2)
  with l show ?thesis by blast
qed

theorem vocabulary_size_witness:
  "distinct [Str ''a'', Str ''b'']
   \<and> length [Str ''a'', Str ''b'']
       = min 2 (card (set (normalised (PStr ''ignore'')
                             [Str ''b'', Str ''a'', Missing, Str ''a'', Str ''c''])))"
proof -
  let ?self = "\<lparr>top_categories = PInt 2, handle_missing = PStr ''ignore'', ignore_format = False\<rparr>"
  let ?col = "[Str ''b'', Str ''a'', Missing, Str ''a'', Str ''c'']"
  let ?st = "\<lparr>top_categories = PInt 2, handle_missing = PStr ''ignore'', ignore_format = False,
            variables = [''v''], feature_names_in = [''v''], n_features_in = 1,
            encoder_dict = [(''v'', [Str ''a'', Str ''b''])]\<rparr>"
  have l: "map_of (encoder_dict ?st) ''v'' = Some [Str ''a'', Str ''b'']" by simp
  from vocabulary_size [OF fit_example l] obtain col where
    "distinct [Str ''a'', Str ''b'']"
    "map_of [(''v'', ?col)] ''v'' = Some col"
    "\<forall>k. top_categories ?self = PInt k \<longrightarrow> 0 < k \<longrightarrow>
        length [Str ''a'', Str ''b''] = min (nat k) (card (set (normalised (handle_missing ?self) col)))"
    by blast
  then show ?thesis by (auto simp: numeral_2_eq_2)
qed

theorem error_policy_rejects_missing_witness:
  "encoder_fit \<lparr>top_categories = PNone, handle_missing = PStr ''error'', ignore_format = False\<rparr>
       [''v''] [(''v'', [Str ''a'', Missing])] = Inl ValueError
   \<and> encoder_fit \<lparr>top_categories = PNone, handle_missing = PStr ''error'', ignore_format = False\<rparr>
       [''v''] [(''v'', [Str ''a''])]
     = Inr \<lparr>top_categories = PNone, handle_missing = PStr ''error'', ignore_format = False,
            variables = [''v''], feature_names_in = [''v''], n_features_in = 1,
            encoder_dict = [(''v'', [Str ''a''])]\<rparr>
   \<and> encoder_transform (\<lambda>r. [])
         \<lparr>top_categories = PNone, handle_missing = PStr ''error'', ignore_format = False,
            variables = [''v''], feature_names_in = [''v''], n_features_in = 1,
            encoder_dict = [(''v'', [Str ''a''])]\<rparr>
         [(''v'', [Str ''a'', Missing])] = Inl ValueError"
proof -
  let ?self = "\<lparr>top_categories = PNone, handle_missing = PStr ''error'', ignore_format = False\<rparr>"
  let ?X = "[(''v'', [Str ''a'', Missing])]"
  have f0: "encoder_fit ?self [''v''] [(''v'', [Str ''a''])]
     = Inr \<lparr>top_categories = PNone, handle_missing = PStr ''error'', ignore_format = False,
            variables = [''v''], feature_names_in = [''v''], n_features_in = 1,
            encoder_dict = [(''v'', [Str ''a''])]\<rparr>"
    by (simp add: encoder_fit_def check_X_def frame_empty_def learn_categories_def
      value_counts_def dropna_def check_encoding_dictionary_def check_contains_na_def)
  have h: "handle_missing ?self = PStr ''error''" by simp
  have v: "''v'' \<in> set [''v'']" by simp
  have c: "map_of ?X ''v'' = Some [Str ''a'', Missing]" by simp
  have m: "Missing \<in> set [Str ''a'', Missing]" by simp
  from error_policy_rejects_missing [OF h v c m, of "\<lambda>r. []"] f0 show ?thesis by simp
qed


lemma set_column_fresh:
  "name \<notin> set (map fst X) \<Longrightarrow> set_column name v X = X @ [(name, v)]"
  by (induction X) auto

lemma set_column_names:
  "name \<in> set (map fst X) \<Longrightarrow> map fst (set_column name v X) = map fst X"
  by (induction X) auto

lemma set_column_filter:
  "name \<in> S \<Longrightarrow> filter (\<lambda>c. fst c \<notin> S) (set_column name v X) = filter (\<lambda>c. fst c \<notin> S) X"
  by (induction X) auto

lemma fold_set_column_fresh:
  "distinct (map nm js) \<Longrightarrow> set (map nm js) \<inter> set (map fst X) = {} \<Longrightarrow>
   fold (\<lambda>j. set_column (nm j) (g j)) js X = X @ map (\<lambda>j. (nm j, g j)) js"
proof (induction js arbitrary: X)
  case Nil
  then show ?case by simp
next
  case (Cons j js)
  from Cons.prems have fresh: "nm j \<notin> set (map fst X)" by auto
  have "fold (\<lambda>j. set_column (nm j) (g j)) js (X @ [(nm j, g j)])
          = (X @ [(nm j, g j)]) @ map (\<lambda>j. (nm j, g j)) js"
    using Cons.prems by (intro Cons.IH) auto
  then show ?case by (simp add: set_column_fresh [OF fresh])
qed

lemma loc_assign_fresh:
  assumes "loc_assign names rows X = Inr X''"
    and "distinct names" and "set names \<inter> set (map fst X) = {}"
  shows "X'' = X @ map (\<lambda>j. (names ! j, matrix_column rows j)) [0..<length names]"
proof -
  have "map ((!) names) [0..<length names] = names" by (rule map_nth)
  with assms(2,3) have
    "fold (\<lambda>j. set_column (names ! j) (matrix_column rows j)) [0..<length names] X
       = X @ map (\<lambda>j. (names ! j, matrix_column rows j)) [0..<length names]"
    by (intro fold_set_column_fresh) simp_all
  with assms(1) show ?thesis
    by (auto simp: loc_assign_def split: if_splits)
qed

lemma transform_loop_frame:
  "transform_loop sf hm ed vs X nv = Inr (X', nv') \<Longrightarrow> set vs \<subseteq> S \<Longrightarrow>
     set vs \<subseteq> set (map fst X) \<and> map fst X' = map fst X
     \<and> filter (\<lambda>c. fst c \<notin> S) X' = filter (\<lambda>c. fst c \<notin> S) X"
proof (induction vs arbitrary: X nv)
  case Nil
  then show ?case by simp
next
  case (Cons v vs)
  from Cons.prems(1) obtain col0 where c: "map_of X v = Some col0"
    by (auto split: option.splits)
  then have vin: "v \<in> set (map fst X)"
    by (auto dest: map_of_SomeD intro: rev_image_eqI)
  let ?X1 = "if hm = PStr ''impute'' then set_column v (fillna (Str []) col0) X else X"
  from Cons.prems(1) c obtain nv1 where
    r: "transform_loop sf hm ed vs ?X1 nv1 = Inr (X', nv')"
    by (auto simp: Let_def split: option.splits sum.splits)
  from Cons.prems(2) have vS: "v \<in> S" and sub: "set vs \<subseteq> S" by auto
  have n1: "map fst ?X1 = map fst X" using vin by (simp add: set_column_names)
  have f1: "filter (\<lambda>c. fst c \<notin> S) ?X1 = filter (\<lambda>c. fst c \<notin> S) X"
    using vS by (simp add: set_column_filter)
  from Cons.IH [OF r sub] show ?case
    using vin by (simp only: n1 f1) simp
qed

lemma new_features_length:
  "get_new_features_name sf ed vs = Inr names \<Longrightarrow>
     length names = (\<Sum>v\<leftarrow>vs. vocab_size ed v)"
  by (induction vs arbitrary: names)
     (auto simp: vocab_size_def split: option.splits sum.splits)

text \<open>
  Claim C3, as the code has it. When the names of the new columns are pairwise distinct
  and none of them is the name of a column of the input, the output of \<open>transform\<close>
  has the non-encoded columns in their original order and with their values, followed
  by the new columns; its width is the number of non-encoded columns plus the sum of
  the vocabulary sizes, and no encoded column is left. A new column whose name is that
  of an input column overwrites it instead: see the counterexample below.
\<close>

theorem transform_columns:
  assumes "encoder_transform sf self X = Inr Y"
    and "get_new_features_name sf (encoder_dict self) (variables self) = Inr names"
    and "distinct names" and "set names \<inter> set (map fst X) = {}"
  shows "map fst Y = filter (\<lambda>n. n \<notin> set (variables self)) (map fst X) @ names
       \<and> length Y = length (filter (\<lambda>c. fst c \<notin> set (variables self)) X)
                    + (\<Sum>v\<leftarrow>variables self. vocab_size (encoder_dict self) v)
       \<and> (\<forall>v \<in> set (variables self). v \<notin> set (map fst Y))
       \<and> take (length (filter (\<lambda>c. fst c \<notin> set (variables self)) X)) Y
           = filter (\<lambda>c. fst c \<notin> set (variables self)) X"
proof -
  let ?vars = "variables self"
  let ?keep = "\<lambda>c::string \<times> cell list. fst c \<notin> set ?vars"
  from assms(1) have cx: "check_transform_input_and_state self X = Inr X"
    by (auto simp: encoder_transform_def check_transform_input_and_state_def check_X_def
        split: sum.splits if_splits)
  with assms(1,2) obtain X' nv M X'' where
    l: "transform_loop sf (handle_missing self) (encoder_dict self) ?vars X [] = Inr (X', nv)"
    and a: "loc_assign names M X' = Inr X''"
    and d: "drop_columns ?vars X'' = Inr Y"
    by (auto simp: encoder_transform_def split: sum.splits if_splits prod.splits)
  from transform_loop_frame [OF l order_refl] have
    sub: "set ?vars \<subseteq> set (map fst X)" and nm: "map fst X' = map fst X"
    and kp: "filter ?keep X' = filter ?keep X"
    by simp_all
  let ?new = "map (\<lambda>j. (names ! j, matrix_column M j)) [0..<length names]"
  have la: "X'' = X' @ ?new"
    using a assms(3,4) by (intro loc_assign_fresh) (simp_all add: nm)
  have fn: "map fst ?new = names"
    by (simp add: comp_def map_nth)
  have disj: "set names \<inter> set ?vars = {}" using assms(4) sub by auto
  have "names ! j \<notin> set ?vars" if "j < length names" for j
    using disj nth_mem [OF that] by blast
  then have kn: "filter ?keep ?new = ?new"
    by (auto simp: filter_id_conv)
  from d have Y: "Y = filter ?keep X @ ?new"
    by (auto simp: drop_columns_def la kn kp split: if_splits)
  have 1: "map fst Y = filter (\<lambda>n. n \<notin> set ?vars) (map fst X) @ names"
    unfolding Y by (simp only: map_append fn filter_map comp_def)
  have 2: "length Y = length (filter ?keep X) + (\<Sum>v\<leftarrow>?vars. vocab_size (encoder_dict self) v)"
    unfolding Y using new_features_length [OF assms(2)] by simp
  have 3: "\<forall>v \<in> set ?vars. v \<notin> set (map fst Y)"
    unfolding 1 using disj by auto
  have 4: "take (length (filter ?keep X)) Y = filter ?keep X"
    unfolding Y by simp
  from 1 2 3 4 show ?thesis by blast
qed


lemma transform_example:
  "encoder_transform (\<lambda>r. [])
      \<lparr>top_categories = PNone, handle_missing = PStr ''impute'', ignore_format = False,
        variables = [''var''], feature_names_in = [''var'', ''num''], n_features_in = 2,
        encoder_dict = [(''var'', [Str ''A'', Str ''B''])]\<rparr>
      [(''var'', [Str ''A'', Str ''B'']), (''num'', [Num 1, Num 2])]
    = Inr [(''num'', [Num 1, Num 2]), (''var_A'', [Num 1, Num 0]), (''var_B'', [Num 0, Num 1])]"
  by (simp add: encoder_transform_def check_transform_input_and_state_def check_X_def
      frame_empty_def encode_var_total score_row_def gpm_fast_def quick_ratio_self
      quick_ratio_A_B hstack_def loc_assign_def matrix_column_def drop_columns_def
      feature_name_def fillna_def Let_def upt_rec)

lemma names_example:
  "get_new_features_name (\<lambda>r. []) [(''var'', [Str ''A'', Str ''B''])] [''var'']
     = Inr [''var_A'', ''var_B'']"
  by (simp add: feature_name_def)

theorem transform_columns_witness:
  "encoder_transform (\<lambda>r. [])
      \<lparr>top_categories = PNone, handle_missing = PStr ''impute'', ignore_format = False,
        variables = [''var''], feature_names_in = [''var'', ''num''], n_features_in = 2,
        encoder_dict = [(''var'', [Str ''A'', Str ''B''])]\<rparr>
      [(''var'', [Str ''A'', Str ''B'']), (''num'', [Num 1, Num 2])]
    = Inr [(''num'', [Num 1, Num 2]), (''var_A'', [Num 1, Num 0]), (''var_B'', [Num 0, Num 1])]
   \<and> map fst [(''num'', [Num 1, Num 2]), (''var_A'', [Num 1, Num 0]), (''var_B'', [Num 0, Num 1])]
     = filter (\<lambda>n. n \<notin> set [''var'']) (map fst [(''var'', [Str ''A'', Str ''B'']), (''num'', [Num 1, Num 2])])
       @ [''var_A'', ''var_B'']
   \<and> length [(''num'', [Num 1, Num 2]), (''var_A'', [Num 1, Num 0]), (''var_B'', [Num 0, Num 1])]
     = length (filter (\<lambda>c. fst c \<notin> set [''var''])
                 [(''var'', [Str ''A'', Str ''B'']), (''num'', [Num 1, Num 2])])
       + (\<Sum>v\<leftarrow>[''var'']. vocab_size [(''var'', [Str ''A'', Str ''B''])] v)"
proof -
  let ?st = "\<lparr>top_categories = PNone, handle_missing = PStr ''impute'', ignore_format = False,
        variables = [''var''], feature_names_in = [''var'', ''num''], n_features_in = 2,
        encoder_dict = [(''var'', [Str ''A'', Str ''B''])]\<rparr>"
  let ?X = "[(''var'', [Str ''A'', Str ''B'']), (''num'', [Num 1, Num 2])]"
  have n: "get_new_features_name (\<lambda>r. []) (encoder_dict ?st) (variables ?st)
             = Inr [''var_A'', ''var_B'']"
    using names_example by simp
  have d: "distinct [''var_A'', ''var_B'']" by simp
  have f: "set [''var_A'', ''var_B''] \<inter> set (map fst ?X) = {}" by simp
  from transform_columns [OF transform_example n d f] transform_example show ?thesis
    by simp
qed

text \<open>
  A table with the columns \<open>var\<close> and \<open>var_A\<close>, encoding \<open>var\<close> with the vocabulary
  \<open>[A]\<close>: the similarity column is called \<open>var_A\<close> and overwrites the input column of
  that name, so the output has one column, not two, and the values of the non-encoded
  column are lost.
\<close>

theorem transform_name_collision_counterexample:
  "encoder_fit \<lparr>top_categories = PNone, handle_missing = PStr ''impute'', ignore_format = False\<rparr>
       [''var''] [(''var'', [Str ''A'']), (''var_A'', [Num 5])]
     = Inr \<lparr>top_categories = PNone, handle_missing = PStr ''impute'', ignore_format = False,
            variables = [''var''], feature_names_in = [''var'', ''var_A''], n_features_in = 2,
            encoder_dict = [(''var'', [Str ''A''])]\<rparr>
   \<and> encoder_transform (\<lambda>r. [])
        \<lparr>top_categories = PNone, handle_missing = PStr ''impute'', ignore_format = False,
            variables = [''var''], feature_names_in = [''var'', ''var_A''], n_features_in = 2,
            encoder_dict = [(''var'', [Str ''A''])]\<rparr>
        [(''var'', [Str ''A'']), (''var_A'', [Num 5])]
     = Inr [(''var_A'', [Num 1])]
   \<and> length [(''var_A'', [Num 1])]
       \<noteq> length (filter (\<lambda>c. fst c \<notin> set [''var'']) [(''var'', [Str ''A'']), (''var_A'', [Num 5])])
         + (\<Sum>v\<leftarrow>[''var'']. vocab_size [(''var'', [Str ''A''])] v)"
  by (simp add: encoder_fit_def learn_categories_def value_counts_def dropna_def
      check_encoding_dictionary_def vocab_size_def
      encoder_transform_def check_transform_input_and_state_def check_X_def
      frame_empty_def encode_var_total score_row_def gpm_fast_def quick_ratio_self
      hstack_def loc_assign_def matrix_column_def drop_columns_def
      feature_name_def fillna_def Let_def upt_rec)

text \<open>
  The blocks that \<open>transform\<close> stacks are the score rows of the columns, and
  \<open>transform\<close> returns on every non-empty rectangular table with the fitted columns
  whose selected variables have non-empty vocabularies (and no missing entry under the
  policy \<open>error\<close>).
\<close>


lemma map_of_set_column:
  "map_of (set_column name v X) w = (if w = name then Some v else map_of X w)"
  by (induction X) auto

lemma fillna_idem: "fillna (Str []) (fillna (Str []) col) = fillna (Str []) col"
  by (simp add: fillna_def)

lemma imputed_idem: "imputed hm (imputed hm col) = imputed hm col"
  by (simp add: imputed_def fillna_idem)

lemma block_of_set_column:
  "map_of X v = Some col0 \<Longrightarrow>
   block_of sf hm ed (set_column v (imputed hm col0) X) w = block_of sf hm ed X w"
  by (auto simp: block_of_def map_of_set_column imputed_idem split: option.splits)

lemma transform_loop_blocks:
  "transform_loop sf hm ed vs X nv = Inr (X', nv') \<Longrightarrow>
     nv' = nv @ map (block_of sf hm ed X) vs"
proof (induction vs arbitrary: X nv)
  case Nil
  then show ?case by simp
next
  case (Cons v vs)
  from Cons.prems obtain col0 vocab encoded where
    c: "map_of X v = Some col0" and e: "map_of ed v = Some vocab"
    and en: "encode_var sf hm vocab (imputed hm col0) = Inr encoded"
    and r: "transform_loop sf hm ed vs
              (if hm = PStr ''impute'' then set_column v (fillna (Str []) col0) X else X)
              (nv @ [encoded]) = Inr (X', nv')"
    by (auto simp: Let_def imputed_def split: option.splits sum.splits if_splits)
  have b: "encoded = block_of sf hm ed X v"
    using encode_var_rows [OF en] c e by (simp add: block_of_def)
  have X1: "block_of sf hm ed
      (if hm = PStr ''impute'' then set_column v (fillna (Str []) col0) X else X) w
      = block_of sf hm ed X w" for w
    using block_of_set_column [OF c, of sf hm ed w] by (cases "hm = PStr ''impute''") (simp_all add: imputed_def)
  from Cons.IH [OF r] show ?case by (simp add: b X1)
qed


lemma transform_loop_total:
  assumes "\<forall>v \<in> set vs. \<exists>col vocab. map_of X v = Some col \<and> col \<noteq> []
              \<and> map_of ed v = Some vocab \<and> vocab \<noteq> []"
  shows "\<exists>X' nv'. transform_loop sf hm ed vs X nv = Inr (X', nv')"
  using assms
proof (induction vs arbitrary: X nv)
  case Nil
  then show ?case by simp
next
  case (Cons v vs)
  from Cons.prems obtain col0 vocab where
    c: "map_of X v = Some col0" "col0 \<noteq> []" and e: "map_of ed v = Some vocab" "vocab \<noteq> []"
    by auto
  let ?X1 = "if hm = PStr ''impute'' then set_column v (fillna (Str []) col0) X else X"
  let ?col = "if hm = PStr ''impute'' then fillna (Str []) col0 else col0"
  have ne: "?col \<noteq> []" using c(2) by (simp add: fillna_def)
  have en: "encode_var sf hm vocab ?col = Inr (map (score_row sf vocab) ?col)"
    using ne e(2) by (intro encode_var_total) simp_all
  have "\<forall>w \<in> set vs. \<exists>col vocab. map_of ?X1 w = Some col \<and> col \<noteq> []
              \<and> map_of ed w = Some vocab \<and> vocab \<noteq> []"
    using Cons.prems c by (auto simp: map_of_set_column fillna_def)
  from Cons.IH [OF this] obtain X' nv' where
    "transform_loop sf hm ed vs ?X1 (nv @ [map (score_row sf vocab) ?col]) = Inr (X', nv')"
    by blast
  then show ?case using c e en by (simp add: Let_def)
qed

lemma new_features_total:
  "\<forall>v \<in> set vs. map_of ed v \<noteq> None \<Longrightarrow> \<exists>names. get_new_features_name sf ed vs = Inr names"
  by (induction vs) auto

lemma set_column_keeps_names: "set (map fst X) \<subseteq> set (map fst (set_column name v X))"
  by (induction X) auto

lemma fold_set_column_keeps_names:
  "set (map fst X) \<subseteq> set (map fst (fold (\<lambda>j. set_column (nm j) (g j)) js X))"
proof (induction js arbitrary: X)
  case Nil
  then show ?case by simp
next
  case (Cons j js)
  have "set (map fst X) \<subseteq> set (map fst (set_column (nm j) (g j) X))"
    by (rule set_column_keeps_names)
  also have "\<dots> \<subseteq> set (map fst (fold (\<lambda>j. set_column (nm j) (g j)) js (set_column (nm j) (g j) X)))"
    by (rule Cons.IH)
  finally show ?case by simp
qed

lemma length_block_of:
  assumes "rectangular X n" and "map_of X v = Some col" and "map_of ed v = Some vocab"
  shows "length (block_of sf hm ed X v) = n"
    and "i < n \<Longrightarrow> length (block_of sf hm ed X v ! i) = vocab_size ed v"
proof -
  from assms(2) have "(v, col) \<in> set X" by (rule map_of_SomeD)
  with assms(1) have l: "length col = n" by (auto simp: rectangular_def)
  then have li: "length (imputed hm col) = n" by (simp add: imputed_def fillna_def)
  show "length (block_of sf hm ed X v) = n"
    using assms(2,3) li by (simp add: block_of_def)
  show "length (block_of sf hm ed X v ! i) = vocab_size ed v" if "i < n"
    using assms(2,3) li that by (simp add: block_of_def vocab_size_def length_score_row)
qed

lemma transform_total:
  assumes "\<not> frame_empty X" and "rectangular X n" and "map fst X = feature_names_in self"
    and "handle_missing self = PStr ''error'' \<longrightarrow> check_contains_na X (variables self) = Inr ()"
    and "variables self \<noteq> []"
    and "\<forall>v \<in> set (variables self). v \<in> set (map fst X)
           \<and> (\<exists>vocab. map_of (encoder_dict self) v = Some vocab \<and> vocab \<noteq> [])"
  shows "\<exists>Y. encoder_transform sf self X = Inr Y"
proof -
  let ?vars = "variables self" and ?ed = "encoder_dict self" and ?hm = "handle_missing self"
  have cx: "check_transform_input_and_state self X = Inr X"
    using assms(1,3) by (simp add: check_transform_input_and_state_def check_X_def)
  have na: "(if ?hm = PStr ''error'' then check_contains_na X ?vars else Inr ()) = Inr ()"
    using assms(4) by simp
  have cols: "\<exists>col. map_of X v = Some col \<and> col \<noteq> []" if "v \<in> set ?vars" for v
  proof -
    from that assms(6) have "v \<in> set (map fst X)" by blast
    then obtain col where c: "map_of X v = Some col"
      by (cases "map_of X v") (auto simp: map_of_eq_None_iff)
    then have "(v, col) \<in> set X" by (rule map_of_SomeD)
    with assms(1) have "col \<noteq> []" by (auto simp: frame_empty_def)
    with c show ?thesis by blast
  qed
  have "\<forall>v \<in> set ?vars. \<exists>col vocab. map_of X v = Some col \<and> col \<noteq> []
              \<and> map_of ?ed v = Some vocab \<and> vocab \<noteq> []"
    using cols assms(6) by blast
  from transform_loop_total [OF this] obtain X' nv where
    l: "transform_loop sf ?hm ?ed ?vars X [] = Inr (X', nv)" by blast
  from transform_loop_blocks [OF l] have nv: "nv = map (block_of sf ?hm ?ed X) ?vars" by simp
  from transform_loop_frame [OF l order_refl] have nm: "map fst X' = map fst X" by simp
  have "\<forall>v \<in> set ?vars. map_of ?ed v \<noteq> None" using assms(6) by auto
  from new_features_total [OF this] obtain names where
    names: "get_new_features_name sf ?ed ?vars = Inr names" by blast
  have bl: "length (block_of sf ?hm ?ed X v) = n"
    and br: "i < n \<Longrightarrow> length (block_of sf ?hm ?ed X v ! i) = vocab_size ?ed v"
    if "v \<in> set ?vars" for v i
  proof -
    from cols [OF that] obtain col where c: "map_of X v = Some col" by blast
    from assms(6) that obtain vocab where e: "map_of ?ed v = Some vocab" by blast
    show "length (block_of sf ?hm ?ed X v) = n"
      by (rule length_block_of(1) [OF assms(2) c e])
    show "length (block_of sf ?hm ?ed X v ! i) = vocab_size ?ed v" if "i < n"
      using that by (rule length_block_of(2) [OF assms(2) c e])
  qed
  have hd_len: "length (hd nv) = n"
    using assms(5) bl by (cases ?vars) (auto simp: nv)
  let ?M = "map (\<lambda>i. concat (map (\<lambda>m. m ! i) nv)) [0..<n]"
  have hs: "hstack nv = Inr ?M"
    using assms(5) bl hd_len by (auto simp: hstack_def nv)
  have "length r = length names" if "r \<in> set ?M" for r
  proof -
    from that obtain i where i: "i < n" and r: "r = concat (map (\<lambda>m. m ! i) nv)" by auto
    have "length r = (\<Sum>v\<leftarrow>?vars. length (block_of sf ?hm ?ed X v ! i))"
      unfolding r nv by (simp add: length_concat comp_def)
    also have "\<dots> = (\<Sum>v\<leftarrow>?vars. vocab_size ?ed v)"
      using br i by (intro arg_cong [where f = sum_list] map_cong) auto
    finally show ?thesis using new_features_length [OF names] by simp
  qed
  then obtain X'' where
    la: "loc_assign names ?M X' = Inr X''"
    and X'': "X'' = fold (\<lambda>j. set_column (names ! j) (matrix_column ?M j)) [0..<length names] X'"
    by (auto simp: loc_assign_def)
  have "set (map fst X') \<subseteq> set (map fst X'')"
    unfolding X'' by (rule fold_set_column_keeps_names)
  with nm assms(6) have "\<forall>v \<in> set ?vars. v \<in> set (map fst X'')" by auto
  then have "drop_columns ?vars X'' = Inr (filter (\<lambda>c. fst c \<notin> set ?vars) X'')"
    by (auto simp: drop_columns_def)
  then show ?thesis
    by (simp add: encoder_transform_def cx na l names hs la)
qed

end
